theory Spec2Isabelle
  imports Complex_Main "HOL-Library.Word" "HOL-Library.AList"
begin

section \<open>Wire format shared by tcp_client.py and tcp_server.py\<close>

text \<open>
  Python \<open>bytes\<close> are lists of 8-bit words, Python integers are \<open>int\<close>, and the
  floats of the source (clock readings, the intermediate values of the window
  arithmetic) are exact reals.  Every method is one atomic step on an explicit state
  record; the datagram socket is the list of datagrams handed to \<open>sendto\<close>.
\<close>

type_synonym byte = "8 word"
type_synonym bytes = "byte list"

datatype error = StructError | TypeError | ZeroDivisionError

definition SEQ_NUM_SIZE :: nat where "SEQ_NUM_SIZE = 4"
definition CHECKSUM_SIZE :: nat where "CHECKSUM_SIZE = 2"
definition ACK_SIZE :: nat where "ACK_SIZE = 4"
definition CHUNK_SIZE :: nat where "CHUNK_SIZE = 1024"
definition TIMEOUT :: real where "TIMEOUT = 0.5"
definition INITIAL_CWND :: int where "INITIAL_CWND = 1"
definition INITIAL_SSTHRESH :: int where "INITIAL_SSTHRESH = 64"
definition FAST_RETRANSMIT_DUP_ACKS :: int where "FAST_RETRANSMIT_DUP_ACKS = 3"

text \<open>\<open>struct.pack('!I', n)\<close> and \<open>struct.pack('!H', n)\<close>: big-endian, and
  \<open>struct.error\<close> when the value does not fit the field.\<close>

definition pack_I :: "int \<Rightarrow> error + bytes" where
  "pack_I n =
     (if 0 \<le> n \<and> n < 2 ^ 32
      then Inr [word_of_int (n div 2 ^ 24), word_of_int (n div 2 ^ 16),
                word_of_int (n div 2 ^ 8), word_of_int n]
      else Inl StructError)"

definition pack_H :: "int \<Rightarrow> error + bytes" where
  "pack_H n =
     (if 0 \<le> n \<and> n < 2 ^ 16
      then Inr [word_of_int (n div 2 ^ 8), word_of_int n]
      else Inl StructError)"

text \<open>\<open>struct.unpack\<close> of a slice; the callers pass slices of the right length.\<close>

fun unpack_be :: "int \<Rightarrow> bytes \<Rightarrow> int" where
  "unpack_be acc [] = acc"
| "unpack_be acc (b # bs) = unpack_be (acc * 256 + uint b) bs"

definition unpack_I :: "bytes \<Rightarrow> int" where
  "unpack_I bs = unpack_be 0 bs"

definition unpack_H :: "bytes \<Rightarrow> int" where
  "unpack_H bs = unpack_be 0 bs"

definition calculate_checksum :: "bytes \<Rightarrow> int" where
  "calculate_checksum data =
     (if data = [] then 0 else (\<Sum>b\<leftarrow>data. uint b) mod 65535)"

definition create_packet :: "int \<Rightarrow> bytes \<Rightarrow> error + bytes" where
  "create_packet seq_num data =
     (case pack_I seq_num of
        Inl e \<Rightarrow> Inl e
      | Inr p1 \<Rightarrow>
          (case pack_H (calculate_checksum data) of
             Inl e \<Rightarrow> Inl e
           | Inr p2 \<Rightarrow> Inr (p1 @ p2 @ data)))"

text \<open>Python's \<open>int(x)\<close> on a float: truncation toward zero.\<close>

definition py_int :: "real \<Rightarrow> int" where
  "py_int x = (if 0 \<le> x then \<lfloor>x\<rfloor> else \<lceil>x\<rceil>)"

section \<open>The segmenter: \<open>TCPClient.read_file\<close>\<close>

text \<open>
  The loop \<open>for i in range(0, len(self.file_data), CHUNK_SIZE)\<close> with its two
  variables \<open>i\<close> and \<open>seq_num\<close>; \<open>read_file\<close> is the loop started at \<open>0, 0\<close>
  on the content of the file.
\<close>

function chunk_loop :: "bytes \<Rightarrow> nat \<Rightarrow> int \<Rightarrow> (int \<times> bytes) list" where
  "chunk_loop file_data i seq_num =
     (if i < length file_data
      then (let chunk_data = take CHUNK_SIZE (drop i file_data)
            in (seq_num, chunk_data)
                 # chunk_loop file_data (i + CHUNK_SIZE) (seq_num + int (length chunk_data)))
      else [])"
  by pat_completeness auto
termination
  by (relation "measure (\<lambda>(file_data, i, seq_num). length file_data - i)")
     (auto simp: CHUNK_SIZE_def)

declare chunk_loop.simps [simp del]

definition read_file :: "bytes \<Rightarrow> (int \<times> bytes) list" where
  "read_file file_data = chunk_loop file_data 0 0"

section \<open>The receiver: \<open>TCPServer\<close>\<close>

text \<open>
  Dictionaries are association lists with Python's insertion order: a lookup is
  \<open>map_of\<close>, an assignment \<open>AList.update\<close>, a \<open>pop\<close> \<open>AList.delete\<close>.
  \<open>acks_out\<close> collects the datagrams that \<open>send_ack\<close> hands to the socket and
  \<open>ack_timer_thread\<close> counts the timer threads started.  A method that raises
  returns \<open>Inl\<close> with the exception and the state reached at the raise, since
  \<open>run\<close> catches the exception and goes on with that state.
\<close>

type_synonym addr = "string \<times> nat"

record server =
  loss_prob :: real
  expected_seq :: int
  received_data :: "(int \<times> bytes) list"
  output_buffer :: "bytes list"
  ack_timer_active :: bool
  ack_timer_thread :: nat
  client_addr :: "addr option"
  total_packets_received :: int
  total_packets_dropped :: int
  total_checksum_errors :: int
  acks_out :: "(addr \<times> bytes) list"

type_synonym 'a outcome = "(error \<times> 'a) + 'a"

definition state_of :: "'a outcome \<Rightarrow> 'a" where
  "state_of r = (case r of Inl (e, s) \<Rightarrow> s | Inr s \<Rightarrow> s)"

definition server_init :: "real \<Rightarrow> server" where
  "server_init lp =
     \<lparr> loss_prob = lp, expected_seq = 0, received_data = [], output_buffer = [],
       ack_timer_active = False, ack_timer_thread = 0, client_addr = None,
       total_packets_received = 0, total_packets_dropped = 0,
       total_checksum_errors = 0, acks_out = [] \<rparr>"

definition verify_checksum :: "bytes \<Rightarrow> int \<Rightarrow> bool" where
  "verify_checksum data received_checksum = (calculate_checksum data = received_checksum)"

definition send_ack :: "server \<Rightarrow> addr \<Rightarrow> int \<Rightarrow> server outcome" where
  "send_ack s a ack_num =
     (case pack_I ack_num of
        Inl e \<Rightarrow> Inl (e, s)
      | Inr ack_packet \<Rightarrow> Inr (s\<lparr>acks_out := acks_out s @ [(a, ack_packet)]\<rparr>))"

text \<open>The timer thread's body after its sleep; \<open>sendto\<close> needs an address.\<close>

definition send_ack_after_rtt :: "server \<Rightarrow> server outcome" where
  "send_ack_after_rtt s =
     (if ack_timer_active s
      then (case client_addr s of
              None \<Rightarrow> Inl (TypeError, s)
            | Some a \<Rightarrow>
                (case send_ack s a (expected_seq s) of
                   Inl err \<Rightarrow> Inl err
                 | Inr s' \<Rightarrow> Inr (s'\<lparr>ack_timer_active := False\<rparr>)))
      else Inr s)"

text \<open>The loop \<open>while self.expected_seq in self.received_data\<close>; each round pops a
  key, so the dictionary shrinks.\<close>

function drain :: "server \<Rightarrow> server" where
  "drain s =
     (case map_of (received_data s) (expected_seq s) of
        None \<Rightarrow> s
      | Some data \<Rightarrow>
          drain (s\<lparr>received_data := AList.delete (expected_seq s) (received_data s),
                   output_buffer := output_buffer s @ [data],
                   expected_seq := expected_seq s + int (length data)\<rparr>))"
  by pat_completeness auto
termination
proof (relation "measure (\<lambda>s. length (received_data s))")
  show "wf (measure (\<lambda>s. length (received_data s)))" by simp
next
  fix s :: server and data
  assume "map_of (received_data s) (expected_seq s) = Some data"
  then have "expected_seq s \<in> fst ` set (received_data s)"
    by (metis domI dom_map_of_conv_image_fst)
  then have "length (AList.delete (expected_seq s) (received_data s)) < length (received_data s)"
    by (induction "received_data s" arbitrary: s) (auto simp: AList.delete_eq length_filter_less le_imp_less_Suc)
  then show "(s\<lparr>received_data := AList.delete (expected_seq s) (received_data s),
               output_buffer := output_buffer s @ [data],
               expected_seq := expected_seq s + int (length data)\<rparr>, s)
             \<in> measure (\<lambda>s. length (received_data s))"
    by simp
qed

declare drain.simps [simp del]

text \<open>\<open>r\<close> is the value of \<open>random.random()\<close> of this call.\<close>

definition process_packet :: "server \<Rightarrow> real \<Rightarrow> bytes \<Rightarrow> addr \<Rightarrow> server outcome" where
  "process_packet s r packet_data a =
     (if length packet_data < SEQ_NUM_SIZE + CHECKSUM_SIZE then Inr s
      else
        let seq_num = unpack_I (take SEQ_NUM_SIZE packet_data);
            checksum = unpack_H (take CHECKSUM_SIZE (drop SEQ_NUM_SIZE packet_data));
            data = drop (SEQ_NUM_SIZE + CHECKSUM_SIZE) packet_data
        in
          if r < loss_prob s
          then Inr (s\<lparr>total_packets_dropped := total_packets_dropped s + 1\<rparr>)
          else
            let s1 = s\<lparr>total_packets_received := total_packets_received s + 1\<rparr> in
              if \<not> verify_checksum data checksum
              then Inr (s1\<lparr>total_checksum_errors := total_checksum_errors s1 + 1\<rparr>)
              else
                let s2 = (if client_addr s1 = None then s1\<lparr>client_addr := Some a\<rparr> else s1) in
                  if seq_num < expected_seq s2
                  then send_ack s2 a (expected_seq s2)
                  else
                    let is_new_packet = (map_of (received_data s2) seq_num = None);
                        s3 = (if is_new_packet
                              then
                                (let s2' = s2\<lparr>received_data :=
                                                 AList.update seq_num data (received_data s2)\<rparr>
                                 in if \<not> ack_timer_active s2'
                                    then s2'\<lparr>ack_timer_active := True,
                                             ack_timer_thread := ack_timer_thread s2' + 1\<rparr>
                                    else s2')
                              else s2)
                    in Inr (drain s3))"

text \<open>What \<open>run\<close> makes of the receiver: datagrams arrive and the timer thread
  fires, in any order; an exception is caught and the loop goes on.\<close>

datatype server_event = Datagram real bytes addr | TimerFires

definition server_step :: "server \<Rightarrow> server_event \<Rightarrow> server" where
  "server_step s ev =
     (case ev of
        Datagram r packet_data a \<Rightarrow> state_of (process_packet s r packet_data a)
      | TimerFires \<Rightarrow> state_of (send_ack_after_rtt s))"

definition server_run :: "server \<Rightarrow> server_event list \<Rightarrow> server" where
  "server_run s evs = foldl server_step s evs"

definition sample_ok :: "server_event \<Rightarrow> bool" where
  "sample_ok ev = (case ev of Datagram r packet_data a \<Rightarrow> 0 \<le> r \<and> r < 1 | TimerFires \<Rightarrow> True)"

definition server_reachable :: "server \<Rightarrow> bool" where
  "server_reachable s =
     (\<exists>lp evs. list_all sample_ok evs \<and> s = server_run (server_init lp) evs)"

fun create_packets :: "(int \<times> bytes) list \<Rightarrow> error + bytes list" where
  "create_packets [] = Inr []"
| "create_packets ((seq_num, data) # cs) =
     (case create_packet seq_num data of
        Inl e \<Rightarrow> Inl e
      | Inr p \<Rightarrow> (case create_packets cs of Inl e \<Rightarrow> Inl e | Inr ps \<Rightarrow> Inr (p # ps)))"

definition total_len :: "bytes list \<Rightarrow> int" where
  "total_len ds = (\<Sum>d\<leftarrow>ds. int (length d))"

section \<open>The sender: \<open>TCPClient\<close>\<close>

text \<open>
  \<open>sent\<close> collects the datagrams handed to \<open>self.sock.sendto\<close>.  \<open>cwnd\<close> is an
  integer whenever a method returns: the only float assigned to it, in congestion
  avoidance, is truncated in the next statement.  A method takes one clock reading
  \<open>now\<close> as an argument and uses it wherever the source calls \<open>time.time()\<close> during
  the call.  A raise is \<open>Inl\<close>; the lock and the threads are not modelled.
\<close>

datatype phase = slow_start | congestion_avoidance

record client =
  chunks :: "(int \<times> bytes) list"
  total_chunks :: nat
  cwnd :: int
  ssthresh :: int
  state :: phase
  next_seq_to_send :: int
  last_acked_seq :: int
  unacked_packets :: "(int \<times> (bytes \<times> real \<times> int)) list"
  last_ack_received :: int
  duplicate_ack_count :: int
  rtt_samples :: "real list"
  current_rtt :: real
  cwnd_history :: "(int \<times> int) list"
  retransmission_history :: "(real \<times> int) list"
  start_time :: "real option"
  total_retransmissions :: int
  timeout_retransmissions :: int
  fast_retransmissions :: int
  sent :: "bytes list"

definition client_init :: client where
  "client_init =
     \<lparr> chunks = [], total_chunks = 0, cwnd = INITIAL_CWND, ssthresh = INITIAL_SSTHRESH,
       state = slow_start, next_seq_to_send = 0, last_acked_seq = - 1,
       unacked_packets = [], last_ack_received = - 1, duplicate_ack_count = 0,
       rtt_samples = [], current_rtt = 0.1, cwnd_history = [],
       retransmission_history = [], start_time = None, total_retransmissions = 0,
       timeout_retransmissions = 0, fast_retransmissions = 0, sent = [] \<rparr>"

text \<open>The two loops over \<open>self.chunks\<close> that look a sequence number up and stop at
  the first match are \<open>map_of (chunks s)\<close>.  \<open>if packet_size\<close> is false for
  \<open>None\<close> and for 0.\<close>

definition packet_size_of :: "client \<Rightarrow> int \<Rightarrow> nat option" where
  "packet_size_of s seq_num = map_option length (map_of (chunks s) seq_num)"

definition in_flight_count :: "client \<Rightarrow> int" where
  "in_flight_count s =
     int (length (filter
       (\<lambda>seq_num. case packet_size_of s seq_num of
                     None \<Rightarrow> False
                   | Some packet_size \<Rightarrow>
                       packet_size \<noteq> 0 \<and> seq_num + int packet_size > last_acked_seq s + 1)
       (map fst (unacked_packets s))))"

definition can_send_more :: "client \<Rightarrow> bool" where
  "can_send_more s = (in_flight_count s < cwnd s)"

text \<open>The append to \<open>metrics['retransmission_history']\<close>; \<open>start_time\<close> is
  \<open>None\<close> until \<open>transfer_file\<close> sets it.\<close>

definition record_retransmission :: "client \<Rightarrow> real \<Rightarrow> error + client" where
  "record_retransmission s now =
     (case start_time s of
        None \<Rightarrow> Inl TypeError
      | Some t0 \<Rightarrow>
          Inr (s\<lparr>retransmission_history :=
                   retransmission_history s @ [(now - t0, total_retransmissions s)]\<rparr>))"

definition send_packet :: "client \<Rightarrow> real \<Rightarrow> int \<Rightarrow> bytes \<Rightarrow> bool \<Rightarrow> error + client" where
  "send_packet s now seq_num data is_retransmit =
     (case create_packet seq_num data of
        Inl e \<Rightarrow> Inl e
      | Inr packet \<Rightarrow>
          let s1 = s\<lparr>sent := sent s @ [packet]\<rparr> in
          (case map_of (unacked_packets s1) seq_num of
             None \<Rightarrow>
               let s2 = s1\<lparr>unacked_packets :=
                             AList.update seq_num (packet, now, 0) (unacked_packets s1)\<rparr>
               in if is_retransmit
                  then record_retransmission
                         (s2\<lparr>total_retransmissions := total_retransmissions s2 + 1,
                             timeout_retransmissions := timeout_retransmissions s2 + 1\<rparr>) now
                  else Inr s2
           | Some (old_packet, old_time, retransmit_count) \<Rightarrow>
               let s2 = s1\<lparr>unacked_packets :=
                             AList.update seq_num (packet, now, retransmit_count + 1)
                               (unacked_packets s1),
                           total_retransmissions := total_retransmissions s1 + 1\<rparr>;
                   s3 = (if is_retransmit
                         then s2\<lparr>timeout_retransmissions := timeout_retransmissions s2 + 1\<rparr>
                         else s2\<lparr>fast_retransmissions := fast_retransmissions s2 + 1\<rparr>)
               in record_retransmission s3 now))"

text \<open>The branch of \<open>handle_ack\<close> taken when the third duplicate arrives.\<close>

definition fast_retransmit :: "client \<Rightarrow> real \<Rightarrow> int \<Rightarrow> error + client" where
  "fast_retransmit s now retransmit_seq =
     (case map_of (chunks s) retransmit_seq of
        None \<Rightarrow> Inr s
      | Some chunk_data \<Rightarrow>
          (case create_packet retransmit_seq chunk_data of
             Inl e \<Rightarrow> Inl e
           | Inr packet \<Rightarrow>
               let s1 = s\<lparr>sent := sent s @ [packet]\<rparr>;
                   s2 = (case map_of (unacked_packets s1) retransmit_seq of
                           Some (old_packet, old_time, retransmit_count) \<Rightarrow>
                             s1\<lparr>unacked_packets :=
                                   AList.update retransmit_seq (packet, now, retransmit_count + 1)
                                     (unacked_packets s1)\<rparr>
                         | None \<Rightarrow>
                             s1\<lparr>unacked_packets :=
                                   AList.update retransmit_seq (packet, now, 1)
                                     (unacked_packets s1)\<rparr>);
                   s3 = s2\<lparr>total_retransmissions := total_retransmissions s2 + 1,
                           fast_retransmissions := fast_retransmissions s2 + 1\<rparr>
               in (case record_retransmission s3 now of
                     Inl e \<Rightarrow> Inl e
                   | Inr s4 \<Rightarrow>
                       let s5 = s4\<lparr>ssthresh := max (py_int (real_of_int (cwnd s4) / 2)) 2\<rparr>
                       in Inr (s5\<lparr>cwnd := ssthresh s5 + 3,
                                  state := congestion_avoidance,
                                  duplicate_ack_count := 0\<rparr>))))"

text \<open>The sequence numbers a new ACK covers, in the order of the dictionary.\<close>

definition acked_packets :: "client \<Rightarrow> int \<Rightarrow> int list" where
  "acked_packets s ack_num =
     filter
       (\<lambda>seq_num. case packet_size_of s seq_num of
                     None \<Rightarrow> False
                   | Some packet_size \<Rightarrow>
                       packet_size \<noteq> 0 \<and> seq_num + int packet_size \<le> ack_num)
       (map fst (unacked_packets s))"

text \<open>One round of \<open>for seq in acked_packets\<close>: the pop and the RTT sample.\<close>

definition pop_acked :: "real \<Rightarrow> int \<Rightarrow> client \<Rightarrow> client" where
  "pop_acked now seq_num s =
     (case map_of (unacked_packets s) seq_num of
        None \<Rightarrow> s
      | Some (packet_data, send_time, retransmit_count) \<Rightarrow>
          let s1 = s\<lparr>unacked_packets := AList.delete seq_num (unacked_packets s)\<rparr> in
            if packet_data \<noteq> [] \<and> send_time \<noteq> 0
            then
              let rtt = now - send_time;
                  s2 = s1\<lparr>rtt_samples := rtt_samples s1 @ [rtt]\<rparr>
              in if length (rtt_samples s2) = 1
                 then s2\<lparr>current_rtt := rtt\<rparr>
                 else s2\<lparr>current_rtt := 0.875 * current_rtt s2 + 0.125 * rtt\<rparr>
            else s1)"

definition new_ack :: "client \<Rightarrow> real \<Rightarrow> int \<Rightarrow> error + client" where
  "new_ack s now ack_num =
     (let s1 = s\<lparr>duplicate_ack_count := 0, last_ack_received := ack_num\<rparr>;
          acked = acked_packets s1 ack_num;
          s2 = fold (pop_acked now) acked s1;
          s3 = s2\<lparr>last_acked_seq := max (last_acked_seq s2) (ack_num - 1)\<rparr>;
          packets_acked = int (length acked)
      in
        (case (if state s3 = slow_start
               then
                 (let s4 = s3\<lparr>cwnd := cwnd s3 + packets_acked\<rparr>
                  in Inr (if cwnd s4 \<ge> ssthresh s4
                          then s4\<lparr>state := congestion_avoidance\<rparr> else s4))
               else if cwnd s3 = 0 then Inl ZeroDivisionError
               else
                 (let x = real_of_int (cwnd s3)
                            + real_of_int packets_acked / real_of_int (cwnd s3)
                  in Inr (s3\<lparr>cwnd := (if x \<ge> 1 then py_int x else 1)\<rparr>)))
         of
           Inl e \<Rightarrow> Inl e
         | Inr s5 \<Rightarrow>
             (case start_time s5 of
                None \<Rightarrow> Inl TypeError
              | Some t0 \<Rightarrow>
                  let current_time = now - t0;
                      rtt_number = (if current_rtt s5 > 0
                                    then py_int (current_time / current_rtt s5) else 0)
                  in Inr (s5\<lparr>cwnd_history := cwnd_history s5 @ [(rtt_number, cwnd s5)]\<rparr>))))"

definition handle_ack :: "client \<Rightarrow> real \<Rightarrow> int \<Rightarrow> error + client" where
  "handle_ack s now ack_num =
     (if ack_num = last_ack_received s
      then
        (let s1 = s\<lparr>duplicate_ack_count := duplicate_ack_count s + 1\<rparr>
         in if duplicate_ack_count s1 = FAST_RETRANSMIT_DUP_ACKS
            then fast_retransmit s1 now ack_num
            else Inr s1)
      else if ack_num > last_ack_received s then new_ack s now ack_num
      else Inr s)"

text \<open>\<open>check_timeouts\<close>: the scan, then the loop over the sequence numbers found.\<close>

definition timed_out_packets :: "client \<Rightarrow> real \<Rightarrow> int list" where
  "timed_out_packets s current_time =
     map fst (filter (\<lambda>(seq_num, packet_data, send_time, retransmit_count).
                        current_time - send_time > TIMEOUT)
                     (unacked_packets s))"

definition timeout_retransmit :: "client \<Rightarrow> real \<Rightarrow> int \<Rightarrow> error + client" where
  "timeout_retransmit s now seq_num =
     (case map_of (chunks s) seq_num of
        None \<Rightarrow> Inr s
      | Some chunk_data \<Rightarrow>
          let s1 = s\<lparr>ssthresh := max (py_int (real_of_int (cwnd s) / 2)) 2\<rparr>;
              s2 = s1\<lparr>cwnd := INITIAL_CWND, state := slow_start\<rparr>
          in send_packet s2 now seq_num chunk_data True)"

fun retransmit_all :: "client \<Rightarrow> real \<Rightarrow> int list \<Rightarrow> error + client" where
  "retransmit_all s now [] = Inr s"
| "retransmit_all s now (seq_num # rest) =
     (case timeout_retransmit s now seq_num of
        Inl e \<Rightarrow> Inl e
      | Inr s' \<Rightarrow> retransmit_all s' now rest)"

definition check_timeouts :: "client \<Rightarrow> real \<Rightarrow> error + client" where
  "check_timeouts s now = retransmit_all s now (timed_out_packets s now)"

text \<open>
  \<open>transfer_file\<close>: the file is read and \<open>start_time\<close> set before the receiver thread
  starts.  From then on the pump sends the chunk at \<open>chunk_index\<close> when
  \<open>can_send_more\<close> allows, ACKs arrive (\<open>struct.unpack('!I', \<dots>)\<close> yields a value
  from 0 to \<open>2^32 - 1\<close>) and timeouts are polled, in any order.  The predicate
  \<open>A\<close> says which ACK values the network delivers in a state.
\<close>

definition transfer_start :: "bytes \<Rightarrow> real \<Rightarrow> client" where
  "transfer_start file_data t0 =
     client_init\<lparr>chunks := read_file file_data,
                 total_chunks := length (read_file file_data),
                 start_time := Some t0\<rparr>"

inductive sender_reach :: "(client \<Rightarrow> nat \<Rightarrow> int \<Rightarrow> bool) \<Rightarrow> client \<Rightarrow> nat \<Rightarrow> bool"
  for A :: "client \<Rightarrow> nat \<Rightarrow> int \<Rightarrow> bool" where
  start: "sender_reach A (transfer_start file_data t0) 0"
| pump: "sender_reach A s chunk_index \<Longrightarrow> can_send_more s \<Longrightarrow> chunk_index < total_chunks s \<Longrightarrow>
         send_packet s now (fst (chunks s ! chunk_index)) (snd (chunks s ! chunk_index)) False
           = Inr s' \<Longrightarrow>
         sender_reach A s' (chunk_index + 1)"
| ack: "sender_reach A s chunk_index \<Longrightarrow> 0 \<le> ack_num \<Longrightarrow> ack_num < 2 ^ 32 \<Longrightarrow>
        A s chunk_index ack_num \<Longrightarrow> handle_ack s now ack_num = Inr s' \<Longrightarrow>
        sender_reach A s' chunk_index"
| poll: "sender_reach A s chunk_index \<Longrightarrow> check_timeouts s now = Inr s' \<Longrightarrow>
         sender_reach A s' chunk_index"

definition any_ack :: "client \<Rightarrow> nat \<Rightarrow> int \<Rightarrow> bool" where
  "any_ack s chunk_index ack_num = True"

text \<open>An ACK that acknowledges only bytes of chunks the pump has already handed to
  \<open>send_packet\<close>.\<close>

definition ack_of_sent :: "client \<Rightarrow> nat \<Rightarrow> int \<Rightarrow> bool" where
  "ack_of_sent s chunk_index ack_num =
     (ack_num \<le> total_len (map snd (take chunk_index (chunks s))))"

section \<open>Notions used to state the properties\<close>

text \<open>A segment table whose sequence numbers are the byte offsets of its non-empty
  payloads, starting at \<open>off\<close>.\<close>

fun contiguous :: "int \<Rightarrow> (int \<times> bytes) list \<Rightarrow> bool" where
  "contiguous off [] = True"
| "contiguous off ((q, d) # cs) = (q = off \<and> d \<noteq> [] \<and> contiguous (off + int (length d)) cs)"

fun datagrams :: "server_event list \<Rightarrow> bytes list" where
  "datagrams [] = []"
| "datagrams (Datagram r packet_data a # evs) = packet_data # datagrams evs"
| "datagrams (TimerFires # evs) = datagrams evs"

text \<open>The reassembly invariant for a segment table \<open>cs\<close>: the delivered payloads are a
  prefix of the table, the buffer holds segments of the rest only, and every segment
  of \<open>seen\<close> is delivered or buffered.\<close>

definition reasm_inv :: "(int \<times> bytes) list \<Rightarrow> (int \<times> bytes) set \<Rightarrow> server \<Rightarrow> bool" where
  "reasm_inv cs seen s \<longleftrightarrow>
     (\<exists>pre post. cs = pre @ post \<and> output_buffer s = map snd pre
        \<and> expected_seq s = total_len (map snd pre)
        \<and> (\<forall>q v. map_of (received_data s) q = Some v \<longrightarrow> (q, v) \<in> set post)
        \<and> (\<forall>c\<in>seen. c \<in> set cs
              \<and> (fst c < expected_seq s \<or> map_of (received_data s) (fst c) = Some (snd c))))"

definition drained :: "server \<Rightarrow> bool" where
  "drained s \<longleftrightarrow> map_of (received_data s) (expected_seq s) = None"

text \<open>What holds of the receiver in every state it reaches.\<close>

definition server_inv :: "server \<Rightarrow> bool" where
  "server_inv s \<longleftrightarrow>
     expected_seq s = total_len (output_buffer s)
     \<and> (0 < expected_seq s \<longrightarrow> client_addr s \<noteq> None)"

text \<open>The state of \<open>process_packet\<close> once the packet is counted and the sender's
  address latched, and after the branch \<open>if is_new_packet\<close>.\<close>

definition latch :: "server \<Rightarrow> addr \<Rightarrow> server" where
  "latch s a = (let s1 = s\<lparr>total_packets_received := total_packets_received s + 1\<rparr>
                in if client_addr s1 = None then s1\<lparr>client_addr := Some a\<rparr> else s1)"

definition store :: "server \<Rightarrow> int \<Rightarrow> bytes \<Rightarrow> server" where
  "store s2 seq_num data =
     (if map_of (received_data s2) seq_num = None
      then (let s2' = s2\<lparr>received_data := AList.update seq_num data (received_data s2)\<rparr>
            in if \<not> ack_timer_active s2'
               then s2'\<lparr>ack_timer_active := True, ack_timer_thread := ack_timer_thread s2' + 1\<rparr>
               else s2')
      else s2)"

text \<open>The receiver after the 3-byte segment at offset 0 has arrived.\<close>

definition one_delivered :: server where
  "one_delivered =
     (server_init 0)\<lparr>expected_seq := 3, output_buffer := [[1, 2, 3]],
       ack_timer_active := True, ack_timer_thread := 1, client_addr := Some (''client'', 5000),
       total_packets_received := 1\<rparr>"

text \<open>A file of two segments, its packets, and two arrival sequences.\<close>

definition two_chunk_file :: bytes where
  "two_chunk_file = replicate 1025 7"

definition two_chunk_packets :: "bytes list" where
  "two_chunk_packets = [[0, 0, 0, 0, 28, 0] @ replicate 1024 7, [0, 0, 4, 0, 0, 7, 7]]"

definition in_order :: "server_event list" where
  "in_order = map (\<lambda>p. Datagram (1 / 2) p (''client'', 5000)) two_chunk_packets"

definition out_of_order :: "server_event list" where
  "out_of_order =
     [Datagram (1 / 2) (two_chunk_packets ! 1) (''client'', 5000), TimerFires,
      Datagram (1 / 4) (two_chunk_packets ! 0) (''client'', 5000),
      Datagram 0 (two_chunk_packets ! 1) (''client'', 5000)]"

text \<open>Whether an ACK covers the segment at \<open>q\<close>, as \<open>acked_packets\<close> tests it.\<close>

definition covers :: "client \<Rightarrow> int \<Rightarrow> int \<Rightarrow> bool" where
  "covers s ack_num q =
     (case packet_size_of s q of
        None \<Rightarrow> False
      | Some packet_size \<Rightarrow> packet_size \<noteq> 0 \<and> q + int packet_size \<le> ack_num)"

text \<open>The datagram \<open>create_packet\<close> builds for the segment of the table at \<open>q\<close>, and
  an entry of \<open>unacked_packets\<close> after its retransmission at \<open>now\<close>.\<close>

definition segment_packet :: "client \<Rightarrow> int \<Rightarrow> bytes option" where
  "segment_packet s q =
     (case map_of (chunks s) q of
        None \<Rightarrow> None
      | Some d \<Rightarrow> (case create_packet q d of Inl e \<Rightarrow> None | Inr p \<Rightarrow> Some p))"

definition retransmitted :: "client \<Rightarrow> real \<Rightarrow> int \<times> bytes \<times> real \<times> int \<Rightarrow> int \<times> bytes \<times> real \<times> int" where
  "retransmitted s now e =
     (case e of (q, old_packet, old_time, retransmit_count) \<Rightarrow>
        (case segment_packet s q of
           None \<Rightarrow> e
         | Some p \<Rightarrow> (q, p, now, retransmit_count + 1)))"

text \<open>The byte offset after the chunks the pump has sent, and the invariants of the
  sender: those that hold whatever ACKs arrive, and those of the in-flight count.\<close>

definition sent_end :: "client \<Rightarrow> nat \<Rightarrow> int" where
  "sent_end s chunk_index = total_len (map snd (take chunk_index (chunks s)))"

definition sender_inv :: "client \<Rightarrow> nat \<Rightarrow> bool" where
  "sender_inv s chunk_index \<longleftrightarrow>
     1 \<le> cwnd s \<and> 2 \<le> ssthresh s
     \<and> total_retransmissions s = timeout_retransmissions s + fast_retransmissions s
     \<and> start_time s \<noteq> None
     \<and> contiguous 0 (chunks s) \<and> total_chunks s = length (chunks s)
     \<and> chunk_index \<le> total_chunks s
     \<and> distinct (map fst (unacked_packets s))
     \<and> (\<forall>q\<in>fst ` set (unacked_packets s). segment_packet s q \<noteq> None)
     \<and> last_acked_seq s + 1 = max (last_ack_received s) 0"

definition flight_inv :: "client \<Rightarrow> nat \<Rightarrow> bool" where
  "flight_inv s chunk_index \<longleftrightarrow>
     last_acked_seq s + 1 \<le> sent_end s chunk_index
     \<and> (\<forall>q\<in>fst ` set (unacked_packets s).
           \<exists>d. map_of (chunks s) q = Some d \<and> last_acked_seq s + 1 < q + int (length d))"

text \<open>States of the transfer of a one-byte file started at time 0: after the pump's
  send at time 1, after ACK 1, after two more ACKs 1; after an ACK 1 that arrives
  before anything is sent, and the send that follows; and two variants of the
  state after the send.\<close>

definition one_byte_packet :: bytes where
  "one_byte_packet = [0, 0, 0, 0, 0, 7, 7]"

definition pumped :: client where
  "pumped = (transfer_start [7] 0)
     \<lparr>unacked_packets := [(0, one_byte_packet, 1, 0)], sent := [one_byte_packet]\<rparr>"

definition acked :: client where
  "acked = pumped
     \<lparr>cwnd := 2, last_acked_seq := 0, unacked_packets := [], last_ack_received := 1,
      rtt_samples := [1], current_rtt := 1, cwnd_history := [(2, 2)]\<rparr>"

definition two_duplicates :: client where
  "two_duplicates = acked\<lparr>duplicate_ack_count := 2\<rparr>"

definition stray_acked :: client where
  "stray_acked = (transfer_start [7] 0)
     \<lparr>last_acked_seq := 0, last_ack_received := 1, cwnd_history := [(10, 1)]\<rparr>"

definition stray_pumped :: client where
  "stray_pumped = stray_acked
     \<lparr>unacked_packets := [(0, one_byte_packet, 2, 0)], sent := [one_byte_packet]\<rparr>"

definition awaiting_third :: client where
  "awaiting_third = pumped\<lparr>last_ack_received := 0, duplicate_ack_count := 2\<rparr>"

definition avoiding :: client where
  "avoiding = pumped\<lparr>cwnd := 4, state := congestion_avoidance\<rparr>"

text \<open>A file of exactly 4 GiB: the offset of each of its chunks fits the four bytes
  of a sequence number, its length does not.  Its packets arrive in order with loss
  disabled; \<open>first_packet_again\<close> is a second copy of its first packet.\<close>

definition four_gib_file :: bytes where
  "four_gib_file = replicate 4294967296 0"

definition four_gib_events :: "server_event list" where
  "four_gib_events =
     (case create_packets (read_file four_gib_file) of
        Inl e \<Rightarrow> []
      | Inr pkts \<Rightarrow> map (\<lambda>p. Datagram 0 p (''client'', 5000)) pkts)"

definition four_gib_delivered :: server where
  "four_gib_delivered = server_run (server_init 0) four_gib_events"

definition first_packet_again :: bytes where
  "first_packet_again = [0, 0, 0, 0, 0, 0] @ replicate 1024 0"





section \<open>The wire format round trip\<close>

lemma pows: "(2::int) ^ 8 = 256" "(2::int) ^ 16 = 65536" "(2::int) ^ 24 = 16777216"
  "(2::int) ^ 32 = 4294967296"
  by simp_all

lemma be16:
  fixes n :: int
  assumes "0 \<le> n" "n < 65536"
  shows "n div 256 mod 256 * 256 + n mod 256 = n"
proof -
  have "n div 256 < 256" "0 \<le> n div 256" using assms by auto
  then have "n div 256 mod 256 = n div 256" by simp
  then show ?thesis by simp
qed

lemma be32:
  fixes n :: int
  assumes "0 \<le> n" "n < 4294967296"
  shows "((n div 16777216 mod 256 * 256 + n div 65536 mod 256) * 256 + n div 256 mod 256) * 256
          + n mod 256 = n"
proof -
  define n1 where "n1 = n div 256"
  define n2 where "n2 = n1 div 256"
  define n3 where "n3 = n2 div 256"
  have e2: "n div 65536 = n2"
    unfolding n2_def n1_def by (simp add: zdiv_zmult2_eq [symmetric])
  have e3: "n div 16777216 = n3"
    unfolding n3_def n2_def n1_def by (simp add: zdiv_zmult2_eq [symmetric])
  have "n3 < 256" "0 \<le> n3" using assms unfolding e3 [symmetric] by auto
  then have m3: "n3 mod 256 = n3" by simp
  have s2: "n3 * 256 + n2 mod 256 = n2" unfolding n3_def by simp
  have s1: "n2 * 256 + n1 mod 256 = n1" unfolding n2_def by simp
  have s0: "n1 * 256 + n mod 256 = n" unfolding n1_def by simp
  show ?thesis
    unfolding e2 e3 m3 s2 n1_def [symmetric] s1 s0 ..
qed

lemma uint_byte_of_int: "uint (word_of_int k :: byte) = k mod 256"
  by (simp add: uint_word_of_int)

lemma pack_I_Inr:
  "pack_I n = Inr bs \<longleftrightarrow>
     0 \<le> n \<and> n < 4294967296 \<and>
     bs = [word_of_int (n div 16777216), word_of_int (n div 65536),
           word_of_int (n div 256), word_of_int n]"
  unfolding pack_I_def pows by (cases "0 \<le> n \<and> n < 4294967296") (simp_all only: if_P if_False sum.inject sum.distinct simp_thms, blast+)


lemma pack_H_Inr:
  "pack_H n = Inr bs \<longleftrightarrow>
     0 \<le> n \<and> n < 65536 \<and> bs = [word_of_int (n div 256), word_of_int n]"
  unfolding pack_H_def pows by (cases "0 \<le> n \<and> n < 65536") (simp_all only: if_P if_False sum.inject sum.distinct simp_thms, blast+)

lemma unpack_pack_I:
  assumes "pack_I n = Inr bs"
  shows "unpack_I bs = n" and "length bs = 4"
proof -
  from assms have r: "0 \<le> n" "n < 4294967296"
    and bs: "bs = [word_of_int (n div 16777216), word_of_int (n div 65536),
           word_of_int (n div 256), word_of_int n]"
    unfolding pack_I_Inr by blast+
  show "length bs = 4" unfolding bs by simp
  show "unpack_I bs = n"
    unfolding bs unpack_I_def unpack_be.simps uint_byte_of_int
    using be32 [OF r] by (simp only: mult_zero_left add_0)
qed

lemma unpack_pack_H:
  assumes "pack_H n = Inr bs"
  shows "unpack_H bs = n" and "length bs = 2"
proof -
  from assms have r: "0 \<le> n" "n < 65536"
    and bs: "bs = [word_of_int (n div 256), word_of_int n]"
    unfolding pack_H_Inr by blast+
  show "length bs = 2" unfolding bs by simp
  show "unpack_H bs = n"
    unfolding bs unpack_H_def unpack_be.simps uint_byte_of_int
    using be16 [OF r] by (simp only: mult_zero_left add_0)
qed

lemma calculate_checksum_range: "0 \<le> calculate_checksum d \<and> calculate_checksum d < 65536"
proof -
  have "k mod 65535 < 65536" for k :: int
    by (rule less_trans [of _ 65535]) simp_all
  then show ?thesis by (simp add: calculate_checksum_def)
qed

lemma pack_I_ok: "0 \<le> n \<Longrightarrow> n < 4294967296 \<Longrightarrow> \<exists>bs. pack_I n = Inr bs"
  unfolding pack_I_Inr by blast

lemma pack_H_checksum: "\<exists>bs. pack_H (calculate_checksum d) = Inr bs"
  unfolding pack_H_Inr using calculate_checksum_range [of d] by blast

lemma create_packet_Inr:
  "create_packet q d = Inr p \<longleftrightarrow>
     (\<exists>p1 p2. pack_I q = Inr p1 \<and> pack_H (calculate_checksum d) = Inr p2 \<and> p = p1 @ p2 @ d)"
  unfolding create_packet_def by (auto split: sum.splits)

lemma create_packet_parse:
  assumes "create_packet q d = Inr p"
  shows "length p = 6 + length d" "unpack_I (take 4 p) = q"
    "unpack_H (take 2 (drop 4 p)) = calculate_checksum d" "drop 6 p = d"
proof -
  from assms obtain p1 p2 where p1: "pack_I q = Inr p1"
    and p2: "pack_H (calculate_checksum d) = Inr p2" and p: "p = p1 @ p2 @ d"
    unfolding create_packet_Inr by blast
  note l1 = unpack_pack_I [OF p1] and l2 = unpack_pack_H [OF p2]
  show "length p = 6 + length d" by (simp add: p l1 l2)
  show "unpack_I (take 4 p) = q" by (simp add: p l1)
  show "unpack_H (take 2 (drop 4 p)) = calculate_checksum d" by (simp add: p l1 l2)
  show "drop 6 p = d" by (simp add: p l1 l2)
qed

lemma create_packet_ok:
  assumes "0 \<le> q" "q < 4294967296"
  shows "\<exists>p. create_packet q d = Inr p"
  unfolding create_packet_Inr using pack_I_ok [OF assms] pack_H_checksum [of d] by blast

lemma create_packet_range:
  "create_packet q d = Inr p \<Longrightarrow> 0 \<le> q \<and> q < 4294967296"
  unfolding create_packet_Inr pack_I_Inr by blast

lemma create_packet_nonempty: "create_packet q d = Inr p \<Longrightarrow> p \<noteq> []"
  using create_packet_parse(1) [of q d p] by auto

section \<open>Properties of the segmenter\<close>

lemma chunk_loop_closed:
  "chunk_loop d i s =
     map (\<lambda>k. (s + int (CHUNK_SIZE * k), take CHUNK_SIZE (drop (i + CHUNK_SIZE * k) d)))
         [0..<(length d - i + (CHUNK_SIZE - 1)) div CHUNK_SIZE]"
proof (induction d i s rule: chunk_loop.induct)
  case (1 d i s)
  let ?n = "\<lambda>i. (length d - i + (CHUNK_SIZE - 1)) div CHUNK_SIZE"
  let ?c = "take CHUNK_SIZE (drop i d)"
  show ?case
  proof (cases "i < length d")
    case True
    have n: "?n i = Suc (?n (i + CHUNK_SIZE))"
      using True unfolding CHUNK_SIZE_def by (cases "length d - i < 1024") auto
    have full: "length ?c = CHUNK_SIZE" if "k < ?n (i + CHUNK_SIZE)" for k
      using that unfolding CHUNK_SIZE_def by (cases "length d - i < 1024") auto
    have "chunk_loop d i s = (s, ?c) # chunk_loop d (i + CHUNK_SIZE) (s + int (length ?c))"
      using True by (subst chunk_loop.simps) (simp add: Let_def)
    also have "chunk_loop d (i + CHUNK_SIZE) (s + int (length ?c)) =
        map (\<lambda>k. (s + int (length ?c) + int (CHUNK_SIZE * k),
                   take CHUNK_SIZE (drop (i + CHUNK_SIZE + CHUNK_SIZE * k) d)))
            [0..<?n (i + CHUNK_SIZE)]"
      using 1 True by simp
    also have "\<dots> = map (\<lambda>k. (s + int (CHUNK_SIZE * Suc k),
                   take CHUNK_SIZE (drop (i + CHUNK_SIZE * Suc k) d)))
            [0..<?n (i + CHUNK_SIZE)]"
    proof (rule map_cong)
      fix k assume "k \<in> set [0..<?n (i + CHUNK_SIZE)]"
      then have "length ?c = CHUNK_SIZE" using full by simp
      then show "(s + int (length ?c) + int (CHUNK_SIZE * k),
                   take CHUNK_SIZE (drop (i + CHUNK_SIZE + CHUNK_SIZE * k) d))
         = (s + int (CHUNK_SIZE * Suc k), take CHUNK_SIZE (drop (i + CHUNK_SIZE * Suc k) d))"
        by (simp add: algebra_simps)
    qed simp
    finally show ?thesis
      unfolding n by (simp add: map_upt_Suc algebra_simps del: upt_Suc)
  next
    case False
    then show ?thesis by (subst chunk_loop.simps) (simp add: CHUNK_SIZE_def)
  qed
qed


lemma read_file_closed:
  "read_file d =
     map (\<lambda>k. (int (1024 * k), take 1024 (drop (1024 * k) d)))
         [0..<(length d + 1023) div 1024]"
  unfolding read_file_def chunk_loop_closed by (simp add: CHUNK_SIZE_def)

lemma ceil_div: "\<lceil>real n / 1024\<rceil> = int ((n + 1023) div 1024)"
  by linarith

lemma read_file_length: "length (read_file d) = (length d + 1023) div 1024"
  by (simp add: read_file_closed)

lemma read_file_nth:
  "k < length (read_file d) \<Longrightarrow>
     read_file d ! k = (int (1024 * k), take 1024 (drop (1024 * k) d))"
  by (simp add: read_file_closed)

lemma read_file_payload_length:
  assumes "k < length (read_file d)"
  shows "length (snd (read_file d ! k)) =
           (if Suc k < length (read_file d) then 1024 else length d - 1024 * k)"
  using assms by (auto simp: read_file_nth read_file_length)

lemma read_file_preceding:
  assumes "k < length (read_file d)"
  shows "(\<Sum>j<k. length (snd (read_file d ! j))) = 1024 * k"
proof -
  have "(\<Sum>j<k. length (snd (read_file d ! j))) = (\<Sum>j<k. 1024)"
    using assms by (intro sum.cong refl) (simp add: read_file_payload_length)
  then show ?thesis by simp
qed

lemma chunk_loop_concat: "concat (map snd (chunk_loop d i s)) = drop i d"
proof (induction d i s rule: chunk_loop.induct)
  case (1 d i s)
  show ?case
  proof (cases "i < length d")
    case True
    have "concat (map snd (chunk_loop d i s))
        = take CHUNK_SIZE (drop i d) @ drop (i + CHUNK_SIZE) d"
      using True 1 by (subst chunk_loop.simps) (simp add: Let_def)
    also have "\<dots> = drop i d"
      by (metis add.commute append_take_drop_id drop_drop)
    finally show ?thesis .
  next
    case False
    then show ?thesis by (subst chunk_loop.simps) simp
  qed
qed

lemma read_file_concat: "concat (map snd (read_file d)) = d"
  by (simp add: read_file_def chunk_loop_concat)

text \<open>
  C9.  For a file of \<open>N\<close> bytes \<open>read_file\<close> produces \<open>\<lceil>N / 1024\<rceil>\<close> segments
  with sequence numbers 0, 1024, 2048, \<dots>; every payload but the last has 1024 bytes
  and the last has \<open>N\<close> minus the lengths before it; the payloads concatenate to
  the file; an empty file gives no segment.
\<close>

theorem read_file_segments:
  "(let cs = read_file d; N = length d in
      int (length cs) = \<lceil>real N / 1024\<rceil>
    \<and> map fst cs = map (\<lambda>k. int (1024 * k)) [0..<length cs]
    \<and> (\<forall>k<length cs.
          int (length (snd (cs ! k))) =
            (if Suc k < length cs then 1024
             else int N - int (\<Sum>j<k. length (snd (cs ! j)))))
    \<and> concat (map snd cs) = d
    \<and> (N = 0 \<longrightarrow> cs = []))"
proof -
  have 1: "int (length (read_file d)) = \<lceil>real (length d) / 1024\<rceil>"
    by (simp only: read_file_length ceil_div)
  have 2: "map fst (read_file d) = map (\<lambda>k. int (1024 * k)) [0..<length (read_file d)]"
    by (simp add: read_file_closed comp_def)
  have 3: "int (length (snd (read_file d ! k))) =
            (if Suc k < length (read_file d) then 1024
             else int (length d) - int (\<Sum>j<k. length (snd (read_file d ! j))))"
    if "k < length (read_file d)" for k
  proof -
    have "1024 * k \<le> length d" using that by (simp add: read_file_length)
    then show ?thesis
      using that by (simp add: read_file_payload_length read_file_preceding)
  qed
  have 5: "length d = 0 \<longrightarrow> read_file d = []"
    by (simp add: read_file_closed)
  show ?thesis
    unfolding Let_def using 1 2 3 read_file_concat 5 by blast
qed

theorem read_file_segments_witness:
  "length (read_file (replicate 1025 (7::byte))) = 2
   \<and> map fst (read_file (replicate 1025 (7::byte))) = [0, 1024]
   \<and> length (snd (read_file (replicate 1025 (7::byte)) ! 0)) = 1024
   \<and> length (snd (read_file (replicate 1025 (7::byte)) ! 1)) = 1
   \<and> read_file [] = []"
proof -
  let ?cs = "read_file (replicate 1025 (7::byte))"
  note h = read_file_segments [of "replicate 1025 (7::byte)", unfolded Let_def]
  have c: "\<lceil>real (1025::nat) / 1024\<rceil> = 2" by linarith
  from h have len: "length ?cs = 2" by (simp add: c)
  from h len have fsts: "map fst ?cs = [0, 1024]" by (simp add: upt_rec)
  from h len have l0: "int (length (snd (?cs ! 0))) = 1024" by simp
  from h have "\<forall>k<length ?cs. int (length (snd (?cs ! k))) =
            (if Suc k < length ?cs then 1024
             else int 1025 - int (\<Sum>j<k. length (snd (?cs ! j))))" by simp
  with len have l1': "int (length (snd (?cs ! 1))) = 1025 - int (\<Sum>j<1. length (snd (?cs ! j)))"
    by simp
  with l0 have l1: "length (snd (?cs ! 1)) = 1" by simp
  have e: "read_file ([]::bytes) = []"
    using read_file_segments [of "[]::bytes", unfolded Let_def] by simp
  from len fsts l0 l1 e show ?thesis by simp
qed

section \<open>The receiver: invariants and duplicate packets\<close>

lemma total_len_simps [simp]:
  "total_len [] = 0" "total_len (d # ds) = int (length d) + total_len ds"
  "total_len (ds @ es) = total_len ds + total_len es"
  by (simp_all add: total_len_def)

lemma total_len_nonneg: "0 \<le> total_len ds"
  by (induction ds) simp_all

lemma unpack_be_nonneg: "0 \<le> acc \<Longrightarrow> 0 \<le> unpack_be acc bs"
  by (induction bs arbitrary: acc) simp_all

lemma unpack_I_nonneg: "0 \<le> unpack_I bs"
  by (simp add: unpack_I_def unpack_be_nonneg)

lemma drain_frame:
  "loss_prob (drain s) = loss_prob s \<and> ack_timer_active (drain s) = ack_timer_active s
   \<and> ack_timer_thread (drain s) = ack_timer_thread s \<and> client_addr (drain s) = client_addr s
   \<and> total_packets_received (drain s) = total_packets_received s
   \<and> total_packets_dropped (drain s) = total_packets_dropped s
   \<and> total_checksum_errors (drain s) = total_checksum_errors s
   \<and> acks_out (drain s) = acks_out s"
proof (induction s rule: drain.induct)
  case (1 s)
  show ?case
  proof (cases "map_of (received_data s) (expected_seq s)")
    case None
    then show ?thesis by (subst (1 2 3 4 5 6 7 8) drain.simps) simp
  next
    case (Some d)
    with 1 [OF Some] show ?thesis by (subst (1 2 3 4 5 6 7 8) drain.simps) simp
  qed
qed

lemma drain_counts:
  "expected_seq s = total_len (output_buffer s) \<Longrightarrow>
   expected_seq (drain s) = total_len (output_buffer (drain s))"
proof (induction s rule: drain.induct)
  case (1 s)
  show ?case
  proof (cases "map_of (received_data s) (expected_seq s)")
    case None
    then show ?thesis using 1(2) by (subst (1 2) drain.simps) simp
  next
    case (Some d)
    with 1(1) [OF Some] 1(2) show ?thesis by (subst (1 2) drain.simps) simp
  qed
qed

lemma drain_mono: "expected_seq s \<le> expected_seq (drain s)"
proof (induction s rule: drain.induct)
  case (1 s)
  show ?case
  proof (cases "map_of (received_data s) (expected_seq s)")
    case None
    then show ?thesis by (subst drain.simps) simp
  next
    case (Some d)
    with 1 [OF Some] show ?thesis by (subst drain.simps) simp
  qed
qed

lemma drain_drained: "drained (drain s)"
proof (induction s rule: drain.induct)
  case (1 s)
  show ?case
  proof (cases "map_of (received_data s) (expected_seq s)")
    case None
    then show ?thesis by (subst drain.simps) (simp add: drained_def)
  next
    case (Some d)
    with 1 [OF Some] show ?thesis by (subst drain.simps) simp
  qed
qed

lemma send_ack_Inr:
  "pack_I n = Inr pk \<Longrightarrow> send_ack s a n = Inr (s\<lparr>acks_out := acks_out s @ [(a, pk)]\<rparr>)"
  by (simp add: send_ack_def)

lemma send_ack_Inl:
  "pack_I n = Inl e \<Longrightarrow> send_ack s a n = Inl (e, s)"
  by (simp add: send_ack_def)

lemma send_ack_cases:
  "(\<exists>e. send_ack s a n = Inl (e, s)) \<or>
   (\<exists>pk. pack_I n = Inr pk \<and> send_ack s a n = Inr (s\<lparr>acks_out := acks_out s @ [(a, pk)]\<rparr>))"
  by (cases "pack_I n") (simp_all add: send_ack_def)

lemma process_packet_short:
  "length p < 6 \<Longrightarrow> process_packet s r p a = Inr s"
  by (simp add: process_packet_def SEQ_NUM_SIZE_def CHECKSUM_SIZE_def)

lemma process_packet_lost:
  "6 \<le> length p \<Longrightarrow> r < loss_prob s \<Longrightarrow>
   process_packet s r p a = Inr (s\<lparr>total_packets_dropped := total_packets_dropped s + 1\<rparr>)"
  by (simp add: process_packet_def SEQ_NUM_SIZE_def CHECKSUM_SIZE_def Let_def)

lemma process_packet_corrupt:
  "6 \<le> length p \<Longrightarrow> \<not> r < loss_prob s \<Longrightarrow>
   \<not> verify_checksum (drop 6 p) (unpack_H (take 2 (drop 4 p))) \<Longrightarrow>
   process_packet s r p a =
     Inr (s\<lparr>total_packets_received := total_packets_received s + 1,
            total_checksum_errors := total_checksum_errors s + 1\<rparr>)"
  by (simp add: process_packet_def SEQ_NUM_SIZE_def CHECKSUM_SIZE_def Let_def)

lemma process_packet_duplicate:
  "6 \<le> length p \<Longrightarrow> \<not> r < loss_prob s \<Longrightarrow>
   verify_checksum (drop 6 p) (unpack_H (take 2 (drop 4 p))) \<Longrightarrow>
   unpack_I (take 4 p) < expected_seq s \<Longrightarrow>
   process_packet s r p a = send_ack (latch s a) a (expected_seq s)"
  by (simp add: process_packet_def SEQ_NUM_SIZE_def CHECKSUM_SIZE_def Let_def latch_def)

lemma process_packet_store:
  "6 \<le> length p \<Longrightarrow> \<not> r < loss_prob s \<Longrightarrow>
   verify_checksum (drop 6 p) (unpack_H (take 2 (drop 4 p))) \<Longrightarrow>
   \<not> unpack_I (take 4 p) < expected_seq s \<Longrightarrow>
   process_packet s r p a = Inr (drain (store (latch s a) (unpack_I (take 4 p)) (drop 6 p)))"
  by (simp add: process_packet_def SEQ_NUM_SIZE_def CHECKSUM_SIZE_def Let_def latch_def store_def)

lemma latch_frame:
  "loss_prob (latch s a) = loss_prob s" "expected_seq (latch s a) = expected_seq s"
  "received_data (latch s a) = received_data s" "output_buffer (latch s a) = output_buffer s"
  "ack_timer_active (latch s a) = ack_timer_active s"
  "ack_timer_thread (latch s a) = ack_timer_thread s"
  "acks_out (latch s a) = acks_out s"
  "client_addr (latch s a) = (if client_addr s = None then Some a else client_addr s)"
  by (simp_all add: latch_def Let_def)

lemma store_frame:
  "loss_prob (store s q d) = loss_prob s" "expected_seq (store s q d) = expected_seq s"
  "output_buffer (store s q d) = output_buffer s"
  "acks_out (store s q d) = acks_out s"
  "client_addr (store s q d) = client_addr s"
  "received_data (store s q d) =
     (if map_of (received_data s) q = None then AList.update q d (received_data s)
      else received_data s)"
  by (simp_all add: store_def Let_def)

lemma state_of_simps [simp]: "state_of (Inr s) = s" "state_of (Inl (e, s)) = s"
  by (simp_all add: state_of_def)

text \<open>What a call of \<open>process_packet\<close> can do to the fields the invariants read.\<close>

lemma process_packet_effect:
  fixes s r p a
  defines "s' \<equiv> state_of (process_packet s r p a)"
  shows "(expected_seq s' = expected_seq s \<and> received_data s' = received_data s
          \<and> output_buffer s' = output_buffer s \<and> loss_prob s' = loss_prob s
          \<and> (client_addr s' = client_addr s \<or> client_addr s' = Some a)
          \<and> (acks_out s' = acks_out s
              \<or> (\<exists>pk. pack_I (expected_seq s) = Inr pk \<and> acks_out s' = acks_out s @ [(a, pk)])))
       \<or> (s' = drain (store (latch s a) (unpack_I (take 4 p)) (drop 6 p))
           \<and> 6 \<le> length p \<and> \<not> r < loss_prob s
           \<and> verify_checksum (drop 6 p) (unpack_H (take 2 (drop 4 p)))
           \<and> expected_seq s \<le> unpack_I (take 4 p))"
proof -
  consider (short) "length p < 6"
    | (lost) "6 \<le> length p" "r < loss_prob s"
    | (corrupt) "6 \<le> length p" "\<not> r < loss_prob s"
        "\<not> verify_checksum (drop 6 p) (unpack_H (take 2 (drop 4 p)))"
    | (dup) "6 \<le> length p" "\<not> r < loss_prob s"
        "verify_checksum (drop 6 p) (unpack_H (take 2 (drop 4 p)))"
        "unpack_I (take 4 p) < expected_seq s"
    | (new) "6 \<le> length p" "\<not> r < loss_prob s"
        "verify_checksum (drop 6 p) (unpack_H (take 2 (drop 4 p)))"
        "\<not> unpack_I (take 4 p) < expected_seq s"
    by linarith
  then show ?thesis
  proof cases
    case short
    then show ?thesis unfolding s'_def by (simp add: process_packet_short)
  next
    case lost
    then show ?thesis unfolding s'_def by (simp add: process_packet_lost)
  next
    case corrupt
    then show ?thesis unfolding s'_def by (simp add: process_packet_corrupt)
  next
    case dup
    have eq: "s' = state_of (send_ack (latch s a) a (expected_seq s))"
      unfolding s'_def using dup by (simp add: process_packet_duplicate)
    from send_ack_cases [of "latch s a" a "expected_seq s"]
    show ?thesis
    proof (elim disjE exE conjE)
      fix e assume "send_ack (latch s a) a (expected_seq s) = Inl (e, latch s a)"
      then show ?thesis unfolding eq by (simp add: latch_frame)
    next
      fix pk assume "pack_I (expected_seq s) = Inr pk"
        "send_ack (latch s a) a (expected_seq s)
           = Inr (latch s a\<lparr>acks_out := acks_out (latch s a) @ [(a, pk)]\<rparr>)"
      then show ?thesis unfolding eq by (simp add: latch_frame)
    qed
  next
    case new
    then show ?thesis unfolding s'_def by (simp add: process_packet_store)
  qed
qed

lemma send_ack_after_rtt_effect:
  fixes s
  defines "s' \<equiv> state_of (send_ack_after_rtt s)"
  shows "expected_seq s' = expected_seq s \<and> received_data s' = received_data s
          \<and> output_buffer s' = output_buffer s \<and> loss_prob s' = loss_prob s
          \<and> client_addr s' = client_addr s
          \<and> (acks_out s' = acks_out s
              \<or> (\<exists>pk c. pack_I (expected_seq s) = Inr pk \<and> client_addr s = Some c
                    \<and> acks_out s' = acks_out s @ [(c, pk)]))"
proof (cases "ack_timer_active s")
  case False
  then show ?thesis unfolding s'_def by (simp add: send_ack_after_rtt_def)
next
  case True
  show ?thesis
  proof (cases "client_addr s")
    case None
    with True show ?thesis unfolding s'_def by (simp add: send_ack_after_rtt_def)
  next
    case (Some c)
    from send_ack_cases [of s c "expected_seq s"] show ?thesis
      unfolding s'_def using True Some by (auto simp: send_ack_after_rtt_def)
  qed
qed

lemma server_inv_init: "server_inv (server_init lp)"
  by (simp add: server_inv_def server_init_def)

lemma server_inv_process_packet:
  assumes "server_inv s"
  shows "server_inv (state_of (process_packet s r p a))"
proof -
  let ?s' = "state_of (process_packet s r p a)"
  let ?t = "store (latch s a) (unpack_I (take 4 p)) (drop 6 p)"
  from process_packet_effect [of s r p a]
  consider (same) "expected_seq ?s' = expected_seq s" "output_buffer ?s' = output_buffer s"
      "client_addr ?s' = client_addr s \<or> client_addr ?s' = Some a"
    | (new) "?s' = drain ?t"
    by blast
  then show ?thesis
  proof cases
    case same
    with assms show ?thesis by (auto simp: server_inv_def)
  next
    case eq: new
    have "expected_seq ?t = total_len (output_buffer ?t)"
      using assms by (simp add: server_inv_def store_frame latch_frame)
    then have 1: "expected_seq (drain ?t) = total_len (output_buffer (drain ?t))"
      by (rule drain_counts)
    have 2: "client_addr (drain ?t) \<noteq> None"
      using drain_frame [of ?t] by (simp add: store_frame latch_frame)
    from 1 2 show ?thesis unfolding eq by (simp add: server_inv_def)
  qed
qed

lemma server_inv_timer:
  assumes "server_inv s"
  shows "server_inv (state_of (send_ack_after_rtt s))"
  using assms send_ack_after_rtt_effect [of s] by (simp add: server_inv_def)

lemma server_inv_step: "server_inv s \<Longrightarrow> server_inv (server_step s ev)"
  by (cases ev) (simp_all add: server_step_def server_inv_process_packet server_inv_timer)

lemma server_inv_run: "server_inv s \<Longrightarrow> server_inv (server_run s evs)"
  unfolding server_run_def by (induction evs arbitrary: s) (simp_all add: server_inv_step)

lemma server_reachable_inv: "server_reachable s \<Longrightarrow> server_inv s"
  unfolding server_reachable_def using server_inv_run [OF server_inv_init] by blast

lemma process_packet_mono: "expected_seq s \<le> expected_seq (state_of (process_packet s r p a))"
  using process_packet_effect [of s r p a]
    drain_mono [of "store (latch s a) (unpack_I (take 4 p)) (drop 6 p)"]
  by (auto simp: store_frame latch_frame)

lemma server_reachable_init: "server_reachable (server_init lp)"
  unfolding server_reachable_def
  by (rule exI [of _ lp], rule exI [of _ "[]"]) (simp add: server_run_def)

lemma server_reachable_step:
  assumes "server_reachable s" "sample_ok ev"
  shows "server_reachable (server_step s ev)"
proof -
  from assms(1) obtain lp evs where "list_all sample_ok evs" "s = server_run (server_init lp) evs"
    unfolding server_reachable_def by blast
  with assms(2) have "list_all sample_ok (evs @ [ev])"
    "server_step s ev = server_run (server_init lp) (evs @ [ev])"
    by (simp_all add: server_run_def)
  then show ?thesis unfolding server_reachable_def by blast
qed

text \<open>
  C10.  In every state the receiver reaches, and after every further call of
  \<open>process_packet\<close> (and every firing of the ACK timer), \<open>expected_seq\<close> is the sum of
  the lengths of the payloads in \<open>output_buffer\<close>; \<open>expected_seq\<close> never decreases;
  and every ACK the call emits carries that number of delivered bytes.
\<close>

theorem expected_seq_counts_delivered:
  assumes "server_reachable s"
  shows "expected_seq s = total_len (output_buffer s)
     \<and> (let s' = state_of (process_packet s r p a) in
           expected_seq s' = total_len (output_buffer s')
         \<and> expected_seq s \<le> expected_seq s'
         \<and> take (length (acks_out s)) (acks_out s') = acks_out s
         \<and> (\<forall>x\<in>set (drop (length (acks_out s)) (acks_out s')).
               unpack_I (snd x) = total_len (output_buffer s')))
     \<and> (let s' = state_of (send_ack_after_rtt s) in
           expected_seq s' = total_len (output_buffer s')
         \<and> expected_seq s \<le> expected_seq s'
         \<and> take (length (acks_out s)) (acks_out s') = acks_out s
         \<and> (\<forall>x\<in>set (drop (length (acks_out s)) (acks_out s')).
               unpack_I (snd x) = total_len (output_buffer s')))"
proof -
  let ?p = "state_of (process_packet s r p a)" and ?t = "state_of (send_ack_after_rtt s)"
  let ?u = "store (latch s a) (unpack_I (take 4 p)) (drop 6 p)"
  from assms have inv: "server_inv s" by (rule server_reachable_inv)
  then have 0: "expected_seq s = total_len (output_buffer s)" by (simp add: server_inv_def)
  have 1: "expected_seq ?p = total_len (output_buffer ?p)"
    using server_inv_process_packet [OF inv] by (simp add: server_inv_def)
  have 2: "expected_seq ?t = total_len (output_buffer ?t)"
    using server_inv_timer [OF inv] by (simp add: server_inv_def)
  have 3: "expected_seq s \<le> expected_seq ?p" by (rule process_packet_mono)
  have 4: "expected_seq s \<le> expected_seq ?t" using send_ack_after_rtt_effect [of s] by simp
  have 5: "take (length (acks_out s)) (acks_out ?p) = acks_out s
      \<and> (\<forall>x\<in>set (drop (length (acks_out s)) (acks_out ?p)).
               unpack_I (snd x) = total_len (output_buffer ?p))"
  proof -
    from process_packet_effect [of s r p a]
    consider (none) "acks_out ?p = acks_out s"
      | (one) pk where "pack_I (expected_seq s) = Inr pk" "acks_out ?p = acks_out s @ [(a, pk)]"
          "expected_seq ?p = expected_seq s"
      | (new) "?p = drain ?u"
      by blast
    then show ?thesis
    proof cases
      case none
      then show ?thesis by simp
    next
      case one
      then show ?thesis using 1 unpack_pack_I(1) [OF one(1)] by simp
    next
      case new
      have "acks_out (drain ?u) = acks_out s"
        using drain_frame [of ?u] by (simp add: store_frame latch_frame)
      then show ?thesis unfolding new by simp
    qed
  qed
  have 6: "take (length (acks_out s)) (acks_out ?t) = acks_out s
      \<and> (\<forall>x\<in>set (drop (length (acks_out s)) (acks_out ?t)).
               unpack_I (snd x) = total_len (output_buffer ?t))"
  proof -
    from send_ack_after_rtt_effect [of s]
    consider (none) "acks_out ?t = acks_out s"
      | (one) pk c where "pack_I (expected_seq s) = Inr pk" "acks_out ?t = acks_out s @ [(c, pk)]"
          "expected_seq ?t = expected_seq s"
      by blast
    then show ?thesis
    proof cases
      case none
      then show ?thesis by simp
    next
      case one
      then show ?thesis using 2 unpack_pack_I(1) [OF one(1)] by simp
    qed
  qed
  from 0 1 2 3 4 5 6 show ?thesis unfolding Let_def by blast
qed

lemma ex_packet: "create_packet 0 [1, 2, 3] = Inr [0, 0, 0, 0, 0, 6, 1, 2, 3]"
  by (simp add: create_packet_def pack_I_def pack_H_def calculate_checksum_def)

lemma ex_first:
  "process_packet (server_init 0) (1 / 2) [0, 0, 0, 0, 0, 6, 1, 2, 3] (''client'', 5000) =
     Inr ((server_init 0)\<lparr>expected_seq := 3, output_buffer := [[1, 2, 3]],
       ack_timer_active := True, ack_timer_thread := 1, client_addr := Some (''client'', 5000),
       total_packets_received := 1\<rparr>)"
  by (simp add: process_packet_def SEQ_NUM_SIZE_def CHECKSUM_SIZE_def Let_def server_init_def
      unpack_I_def unpack_H_def verify_checksum_def calculate_checksum_def drain.simps)

lemma one_delivered_reachable: "server_reachable one_delivered"
proof -
  have "sample_ok (Datagram (1 / 2) [0, 0, 0, 0, 0, 6, 1, 2, 3] (''client'', 5000))"
    by (simp add: sample_ok_def)
  from server_reachable_step [OF server_reachable_init [of 0] this]
  show ?thesis by (simp add: server_step_def ex_first one_delivered_def)
qed

theorem expected_seq_counts_delivered_witness:
  "server_reachable one_delivered
   \<and> expected_seq one_delivered = 3
   \<and> total_len (output_buffer one_delivered) = 3
   \<and> acks_out (state_of (process_packet one_delivered (1 / 2) [0, 0, 0, 0, 0, 6, 1, 2, 3]
         (''client'', 5000))) = [((''client'', 5000), [0, 0, 0, 3])]
   \<and> list_all (\<lambda>x. unpack_I (snd x) = 3) (drop (length (acks_out one_delivered))
         (acks_out (state_of (process_packet one_delivered (1 / 2) [0, 0, 0, 0, 0, 6, 1, 2, 3]
         (''client'', 5000)))))"
proof -
  note h = expected_seq_counts_delivered [OF one_delivered_reachable,
      of "1 / 2" "[0, 0, 0, 0, 0, 6, 1, 2, 3]" "(''client'', 5000)", unfolded Let_def]
  have e: "expected_seq one_delivered = 3" by (simp add: one_delivered_def)
  have a: "acks_out (state_of (process_packet one_delivered (1 / 2) [0, 0, 0, 0, 0, 6, 1, 2, 3]
         (''client'', 5000))) = [((''client'', 5000), [0, 0, 0, 3])]"
    by (simp add: process_packet_def SEQ_NUM_SIZE_def CHECKSUM_SIZE_def Let_def server_init_def
      unpack_I_def unpack_H_def verify_checksum_def calculate_checksum_def one_delivered_def
      send_ack_def pack_I_def)
  from h e have t: "total_len (output_buffer one_delivered) = 3" by simp
  from h e have o: "total_len (output_buffer (state_of (process_packet one_delivered (1 / 2)
      [0, 0, 0, 0, 0, 6, 1, 2, 3] (''client'', 5000)))) = 3"
    by (simp add: process_packet_def SEQ_NUM_SIZE_def CHECKSUM_SIZE_def Let_def server_init_def
      unpack_I_def unpack_H_def verify_checksum_def calculate_checksum_def one_delivered_def
      send_ack_def pack_I_def)
  from h o have "list_all (\<lambda>x. unpack_I (snd x) = 3) (drop (length (acks_out one_delivered))
         (acks_out (state_of (process_packet one_delivered (1 / 2) [0, 0, 0, 0, 0, 6, 1, 2, 3]
         (''client'', 5000)))))"
    unfolding list_all_iff by simp
  with one_delivered_reachable e t a show ?thesis by blast
qed

text \<open>
  C6, as amended.  While \<open>expected_seq\<close> fits the four bytes of the ACK
  (\<open>expected_seq < 2^32\<close>), a packet that is accepted (long enough, not dropped,
  checksum right) with a sequence number below \<open>expected_seq\<close> makes the receiver
  send one ACK carrying \<open>expected_seq\<close> at once; apart from that datagram and the
  counter of received packets the state is unchanged: \<open>expected_seq\<close>,
  \<open>received_data\<close>, \<open>output_buffer\<close>, \<open>client_addr\<close> and \<open>ack_timer_active\<close>
  stay as they are.
\<close>

theorem duplicate_packet_immediate_ack:
  assumes "server_reachable s"
    and "SEQ_NUM_SIZE + CHECKSUM_SIZE \<le> length packet_data"
    and "\<not> r < loss_prob s"
    and "verify_checksum (drop 6 packet_data) (unpack_H (take 2 (drop 4 packet_data)))"
    and "unpack_I (take 4 packet_data) < expected_seq s"
    and "expected_seq s < 2 ^ 32"
  shows "\<exists>ack_packet. pack_I (expected_seq s) = Inr ack_packet
           \<and> unpack_I ack_packet = expected_seq s
           \<and> process_packet s r packet_data a =
               Inr (s\<lparr>total_packets_received := total_packets_received s + 1,
                      acks_out := acks_out s @ [(a, ack_packet)]\<rparr>)"
proof -
  from assms(2) have len: "6 \<le> length packet_data"
    by (simp add: SEQ_NUM_SIZE_def CHECKSUM_SIZE_def)
  have pos: "0 < expected_seq s"
    using assms(5) unpack_I_nonneg [of "take 4 packet_data"] by linarith
  with server_reachable_inv [OF assms(1)] have "client_addr s \<noteq> None"
    by (simp add: server_inv_def)
  then have l: "latch s a = s\<lparr>total_packets_received := total_packets_received s + 1\<rparr>"
    by (simp add: latch_def Let_def)
  from pos assms(6) have "0 \<le> expected_seq s" "expected_seq s < 4294967296"
    unfolding pows by simp_all
  from pack_I_ok [OF this] obtain pk where pk: "pack_I (expected_seq s) = Inr pk" ..
  have "process_packet s r packet_data a = send_ack (latch s a) a (expected_seq s)"
    using len assms(3,4,5) by (rule process_packet_duplicate)
  also have "\<dots> = Inr (s\<lparr>total_packets_received := total_packets_received s + 1,
                      acks_out := acks_out s @ [(a, pk)]\<rparr>)"
    unfolding l send_ack_Inr [OF pk] by simp
  finally show ?thesis using pk unpack_pack_I(1) [OF pk] by blast
qed

theorem duplicate_packet_immediate_ack_witness:
  "server_reachable one_delivered
   \<and> unpack_I (take 4 [0, 0, 0, 0, 0, 6, 1, 2, 3]) < expected_seq one_delivered
   \<and> process_packet one_delivered (1 / 2) [0, 0, 0, 0, 0, 6, 1, 2, 3] (''client'', 5000) =
        Inr (one_delivered\<lparr>total_packets_received := 2,
               acks_out := [((''client'', 5000), [0, 0, 0, 3])]\<rparr>)"
proof -
  let ?p = "[0, 0, 0, 0, 0, 6, 1, 2, 3] :: bytes"
  have 2: "SEQ_NUM_SIZE + CHECKSUM_SIZE \<le> length ?p"
    by (simp add: SEQ_NUM_SIZE_def CHECKSUM_SIZE_def)
  have 3: "\<not> (1 / 2 :: real) < loss_prob one_delivered"
    by (simp add: one_delivered_def server_init_def)
  have 4: "verify_checksum (drop 6 ?p) (unpack_H (take 2 (drop 4 ?p)))"
    by (simp add: verify_checksum_def calculate_checksum_def unpack_H_def)
  have 5: "unpack_I (take 4 ?p) < expected_seq one_delivered"
    by (simp add: unpack_I_def one_delivered_def)
  have 6: "expected_seq one_delivered < 2 ^ 32"
    by (simp add: one_delivered_def)
  have pk: "pack_I 3 = Inr [0, 0, 0, 3]" by (simp add: pack_I_def)
  from duplicate_packet_immediate_ack [OF one_delivered_reachable 2 3 4 5 6, of "(''client'', 5000)"]
  have "process_packet one_delivered (1 / 2) ?p (''client'', 5000) =
        Inr (one_delivered\<lparr>total_packets_received := 2,
               acks_out := [((''client'', 5000), [0, 0, 0, 3])]\<rparr>)"
    by (simp add: one_delivered_def server_init_def pk)
  with one_delivered_reachable 5 show ?thesis by blast
qed

section \<open>The receiver: reassembly in any arrival order\<close>

lemma nonempty_len: "d \<noteq> [] \<Longrightarrow> 1 \<le> int (length d)"
  by (cases d) simp_all

lemma contiguous_append:
  "contiguous off (xs @ ys) \<longleftrightarrow>
     contiguous off xs \<and> contiguous (off + total_len (map snd xs)) ys"
  by (induction xs arbitrary: off) (auto simp: add.assoc)

lemma contiguous_mem:
  "contiguous off cs \<Longrightarrow> (q, v) \<in> set cs \<Longrightarrow>
     off \<le> q \<and> v \<noteq> [] \<and> q + int (length v) \<le> off + total_len (map snd cs)"
proof (induction cs arbitrary: off)
  case Nil
  then show ?case by simp
next
  case (Cons c cs)
  obtain q0 d0 where c: "c = (q0, d0)" by (cases c)
  from Cons.prems(1) have h: "q0 = off" "d0 \<noteq> []" "contiguous (off + int (length d0)) cs"
    by (simp_all add: c)
  show ?case
  proof (cases "(q, v) = c")
    case True
    with h c show ?thesis using total_len_nonneg [of "map snd cs"] by auto
  next
    case False
    with Cons.prems(2) have "(q, v) \<in> set cs" by simp
    from Cons.IH [OF h(3) this] show ?thesis by (simp add: c)
  qed
qed

lemma contiguous_unique:
  "contiguous off cs \<Longrightarrow> (q, v) \<in> set cs \<Longrightarrow> (q, v') \<in> set cs \<Longrightarrow> v = v'"
proof (induction cs arbitrary: off)
  case Nil
  then show ?case by simp
next
  case (Cons c cs)
  obtain q0 d0 where c: "c = (q0, d0)" by (cases c)
  from Cons.prems(1) have h: "q0 = off" "d0 \<noteq> []" "contiguous (off + int (length d0)) cs"
    by (simp_all add: c)
  have later: "off < q'" if "(q', w) \<in> set cs" for q' w
    using contiguous_mem [OF h(3) that] h(2) by (cases d0) simp_all
  from Cons.prems(2,3) consider "v = d0" "v' = d0" | "(q, v) \<in> set cs" "(q, v') \<in> set cs"
    using later h(1) c by fastforce
  then show ?case
  proof cases
    case 1
    then show ?thesis by simp
  next
    case 2
    then show ?thesis using Cons.IH [OF h(3)] by blast
  qed
qed

lemma contiguous_chunk_loop: "contiguous s (chunk_loop d i s)"
proof (induction d i s rule: chunk_loop.induct)
  case (1 d i s)
  show ?case
  proof (cases "i < length d")
    case True
    then have ne: "take CHUNK_SIZE (drop i d) \<noteq> []" by (simp add: CHUNK_SIZE_def)
    show ?thesis
      using True ne 1 by (subst chunk_loop.simps) (simp add: Let_def)
  next
    case False
    then show ?thesis by (subst chunk_loop.simps) simp
  qed
qed

lemma contiguous_read_file: "contiguous 0 (read_file d)"
  unfolding read_file_def by (rule contiguous_chunk_loop)

lemma reasm_inv_cong:
  assumes "expected_seq s' = expected_seq s" "received_data s' = received_data s"
    "output_buffer s' = output_buffer s"
  shows "reasm_inv cs seen s' = reasm_inv cs seen s"
  unfolding reasm_inv_def assms ..

lemma drained_cong:
  assumes "expected_seq s' = expected_seq s" "received_data s' = received_data s"
  shows "drained s' = drained s"
  unfolding drained_def assms ..

lemma reasm_inv_init: "reasm_inv cs {} (server_init lp)"
  unfolding reasm_inv_def
  by (rule exI [of _ "[]"], rule exI [of _ cs]) (simp add: server_init_def)

lemma drained_init: "drained (server_init lp)"
  by (simp add: drained_def server_init_def)

lemma reasm_inv_pop:
  assumes cont: "contiguous 0 cs" and inv: "reasm_inv cs seen s"
    and hit: "map_of (received_data s) (expected_seq s) = Some d"
  shows "reasm_inv cs seen
           (s\<lparr>received_data := AList.delete (expected_seq s) (received_data s),
              output_buffer := output_buffer s @ [d],
              expected_seq := expected_seq s + int (length d)\<rparr>)"
proof -
  let ?s' = "s\<lparr>received_data := AList.delete (expected_seq s) (received_data s),
              output_buffer := output_buffer s @ [d],
              expected_seq := expected_seq s + int (length d)\<rparr>"
  from inv obtain pre post where cs: "cs = pre @ post"
    and out: "output_buffer s = map snd pre"
    and ex: "expected_seq s = total_len (map snd pre)"
    and buf: "\<And>q v. map_of (received_data s) q = Some v \<Longrightarrow> (q, v) \<in> set post"
    and seen: "\<And>c. c \<in> seen \<Longrightarrow> c \<in> set cs
          \<and> (fst c < expected_seq s \<or> map_of (received_data s) (fst c) = Some (snd c))"
    unfolding reasm_inv_def by blast
  from cont have cpost: "contiguous (expected_seq s) post"
    unfolding cs contiguous_append ex by simp
  from buf [OF hit] have mem: "(expected_seq s, d) \<in> set post" .
  then obtain q0 v0 post' where post: "post = (q0, v0) # post'"
    by (cases post) auto
  from cpost have h: "q0 = expected_seq s" "v0 \<noteq> []"
    "contiguous (expected_seq s + int (length v0)) post'"
    by (simp_all add: post)
  have "(expected_seq s, v0) \<in> set post" by (simp add: post h)
  from contiguous_unique [OF cpost mem this] have d: "d = v0" .
  have dpos: "1 \<le> int (length d)" unfolding d using h(2) by (rule nonempty_len)
  have later: "expected_seq s < q" if "(q, v) \<in> set post'" for q v
    using contiguous_mem [OF h(3) that] dpos unfolding d by linarith
  have 1: "cs = (pre @ [(q0, v0)]) @ post'" by (simp add: cs post)
  have 2: "output_buffer ?s' = map snd (pre @ [(q0, v0)])" by (simp add: out d)
  have 3: "expected_seq ?s' = total_len (map snd (pre @ [(q0, v0)]))" by (simp add: ex d)
  have 4: "(q, v) \<in> set post'" if "map_of (received_data ?s') q = Some v" for q v
  proof -
    from that have ne: "q \<noteq> expected_seq s" and "map_of (received_data s) q = Some v"
      by (auto simp: AList.delete_conv' split: if_splits)
    from buf [OF this(2)] ne show ?thesis by (auto simp: post h)
  qed
  have 5: "c \<in> set cs
        \<and> (fst c < expected_seq ?s' \<or> map_of (received_data ?s') (fst c) = Some (snd c))"
    if "c \<in> seen" for c
  proof -
    from seen [OF that] have m: "c \<in> set cs"
      and o: "fst c < expected_seq s \<or> map_of (received_data s) (fst c) = Some (snd c)"
      by blast+
    show ?thesis
    proof (cases "fst c \<le> expected_seq s")
      case True
      with dpos have "fst c < expected_seq ?s'" by simp
      with m show ?thesis by blast
    next
      case False
      with o have "map_of (received_data s) (fst c) = Some (snd c)" by simp
      with False m show ?thesis by (simp add: AList.delete_conv')
    qed
  qed
  show ?thesis
    unfolding reasm_inv_def
    apply (rule exI [of _ "pre @ [(q0, v0)]"], rule exI [of _ post'])
    using 1 2 3 4 5 by blast
qed

lemma drain_reasm:
  "contiguous 0 cs \<Longrightarrow> reasm_inv cs seen s \<Longrightarrow> reasm_inv cs seen (drain s)"
proof (induction s rule: drain.induct)
  case (1 s)
  show ?case
  proof (cases "map_of (received_data s) (expected_seq s)")
    case None
    then show ?thesis using 1(3) by (subst drain.simps) simp
  next
    case (Some d)
    from reasm_inv_pop [OF 1(2) 1(3) Some] 1(1) [OF Some 1(2)] Some
    show ?thesis by (subst drain.simps) simp
  qed
qed

lemma reasm_inv_store:
  assumes cont: "contiguous 0 cs" and inv: "reasm_inv cs seen s"
    and c: "(q, v) \<in> set cs" and ge: "expected_seq s \<le> q"
  shows "reasm_inv cs (insert (q, v) seen) (store (latch s a) q v)"
proof -
  let ?s' = "store (latch s a) q v"
  from inv obtain pre post where cs: "cs = pre @ post"
    and out: "output_buffer s = map snd pre"
    and ex: "expected_seq s = total_len (map snd pre)"
    and buf: "\<And>q v. map_of (received_data s) q = Some v \<Longrightarrow> (q, v) \<in> set post"
    and seen: "\<And>c. c \<in> seen \<Longrightarrow> c \<in> set cs
          \<and> (fst c < expected_seq s \<or> map_of (received_data s) (fst c) = Some (snd c))"
    unfolding reasm_inv_def by blast
  from cont have cpre: "contiguous 0 pre" unfolding cs contiguous_append by simp
  have "(q, v) \<notin> set pre"
  proof
    assume "(q, v) \<in> set pre"
    from contiguous_mem [OF cpre this] nonempty_len [of v] ge ex show False by simp
  qed
  with c have inpost: "(q, v) \<in> set post" by (simp add: cs)
  have rd: "received_data ?s' =
     (if map_of (received_data s) q = None then AList.update q v (received_data s)
      else received_data s)"
    by (simp add: store_frame latch_frame)
  have e: "expected_seq ?s' = expected_seq s" and o: "output_buffer ?s' = output_buffer s"
    by (simp_all add: store_frame latch_frame)
  have 4: "(q', v') \<in> set post" if "map_of (received_data ?s') q' = Some v'" for q' v'
    using that inpost buf unfolding rd by (auto simp: AList.update_conv' split: if_splits)
  have new: "map_of (received_data ?s') q = Some v"
  proof (cases "map_of (received_data s) q")
    case None
    then show ?thesis unfolding rd by (simp add: AList.update_conv')
  next
    case (Some w)
    from buf [OF Some] have "(q, w) \<in> set cs" by (simp add: cs)
    from contiguous_unique [OF cont this c] Some show ?thesis unfolding rd by simp
  qed
  have 5: "c \<in> set cs
        \<and> (fst c < expected_seq ?s' \<or> map_of (received_data ?s') (fst c) = Some (snd c))"
    if "c \<in> insert (q, v) seen" for c
  proof (cases "c = (q, v)")
    case True
    with new \<open>(q, v) \<in> set cs\<close> show ?thesis by simp
  next
    case False
    with that have "c \<in> seen" by simp
    from seen [OF this] show ?thesis
      unfolding rd e by (auto simp: AList.update_conv')
  qed
  show ?thesis
    unfolding reasm_inv_def
    apply (rule exI [of _ pre], rule exI [of _ post])
    using cs out ex 4 5 unfolding e o by blast
qed

lemma reasm_inv_seen_below:
  assumes inv: "reasm_inv cs seen s" and c: "c \<in> set cs" and lt: "fst c < expected_seq s"
  shows "reasm_inv cs (insert c seen) s"
  using assms unfolding reasm_inv_def by (elim exE conjE) (intro exI conjI; blast)

lemma create_packet_inj:
  assumes "create_packet q v = Inr p" "create_packet q' v' = Inr p"
  shows "q' = q \<and> v' = v"
  using create_packet_parse(2,4) [OF assms(1)] create_packet_parse(2,4) [OF assms(2)] by simp

lemma verify_created:
  assumes "create_packet q v = Inr p"
  shows "verify_checksum (drop 6 p) (unpack_H (take 2 (drop 4 p)))"
  using create_packet_parse(3,4) [OF assms] by (simp add: verify_checksum_def)

text \<open>One datagram built from a segment of the table, with loss disabled.\<close>

lemma reasm_step_datagram:
  assumes cont: "contiguous 0 cs" and inv: "reasm_inv cs seen s" and dr: "drained s"
    and lp: "loss_prob s = 0" and r: "0 \<le> r"
    and c: "(q, v) \<in> set cs" and p: "create_packet q v = Inr p"
  shows "reasm_inv cs (insert (q, v) seen) (state_of (process_packet s r p a))
       \<and> drained (state_of (process_packet s r p a))
       \<and> loss_prob (state_of (process_packet s r p a)) = 0"
proof -
  let ?s' = "state_of (process_packet s r p a)"
  have len: "6 \<le> length p" using create_packet_parse(1) [OF p] by simp
  have nl: "\<not> r < loss_prob s" using lp r by simp
  note vc = verify_created [OF p]
  have sq: "unpack_I (take 4 p) = q" and dt: "drop 6 p = v"
    using create_packet_parse(2,4) [OF p] by simp_all
  show ?thesis
  proof (cases "q < expected_seq s")
    case True
    then have "process_packet s r p a = send_ack (latch s a) a (expected_seq s)"
      using process_packet_duplicate [OF len nl vc] sq by simp
    with send_ack_cases [of "latch s a" a "expected_seq s"]
    have f: "expected_seq ?s' = expected_seq s" "received_data ?s' = received_data s"
      "output_buffer ?s' = output_buffer s" "loss_prob ?s' = loss_prob s"
      by (auto simp: latch_frame)
    from reasm_inv_seen_below [OF inv c] True
    have "reasm_inv cs (insert (q, v) seen) s" by simp
    then show ?thesis
      using dr lp reasm_inv_cong [OF f(1,2,3)] drained_cong [OF f(1,2)] f(4) by simp
  next
    case False
    then have eq: "?s' = drain (store (latch s a) q v)"
      using process_packet_store [OF len nl vc] sq dt by simp
    from False have "expected_seq s \<le> q" by simp
    from drain_reasm [OF cont reasm_inv_store [OF cont inv c this]]
    have "reasm_inv cs (insert (q, v) seen) ?s'" unfolding eq .
    moreover have "drained ?s'" unfolding eq by (rule drain_drained)
    moreover have "loss_prob ?s' = 0"
      unfolding eq using drain_frame [of "store (latch s a) q v"] lp
      by (simp add: store_frame latch_frame)
    ultimately show ?thesis by blast
  qed
qed

lemma reasm_step_timer:
  assumes "reasm_inv cs seen s" "drained s" "loss_prob s = 0"
  shows "reasm_inv cs seen (state_of (send_ack_after_rtt s))
       \<and> drained (state_of (send_ack_after_rtt s))
       \<and> loss_prob (state_of (send_ack_after_rtt s)) = 0"
proof -
  from send_ack_after_rtt_effect [of s]
  have f: "expected_seq (state_of (send_ack_after_rtt s)) = expected_seq s"
    "received_data (state_of (send_ack_after_rtt s)) = received_data s"
    "output_buffer (state_of (send_ack_after_rtt s)) = output_buffer s"
    "loss_prob (state_of (send_ack_after_rtt s)) = loss_prob s"
    by simp_all
  show ?thesis
    using assms reasm_inv_cong [OF f(1,2,3)] drained_cong [OF f(1,2)] f(4) by simp
qed

lemma reasm_run:
  assumes cont: "contiguous 0 cs"
  shows "list_all sample_ok evs \<Longrightarrow>
     (\<forall>p\<in>set (datagrams evs). \<exists>c\<in>set cs. create_packet (fst c) (snd c) = Inr p) \<Longrightarrow>
     reasm_inv cs seen s \<Longrightarrow> drained s \<Longrightarrow> loss_prob s = 0 \<Longrightarrow>
     reasm_inv cs (seen \<union> {c \<in> set cs. \<exists>p\<in>set (datagrams evs).
                                   create_packet (fst c) (snd c) = Inr p})
        (server_run s evs)
     \<and> drained (server_run s evs)"
proof (induction evs arbitrary: s seen)
  case Nil
  then show ?case by (simp add: server_run_def)
next
  case (Cons ev evs)
  have run: "server_run s (ev # evs) = server_run (server_step s ev) evs"
    by (simp add: server_run_def)
  from Cons.prems(1) have ok: "list_all sample_ok evs" and okev: "sample_ok ev" by simp_all
  show ?case
  proof (cases ev)
    case (Datagram r p a)
    from okev have r: "0 \<le> r" by (simp add: sample_ok_def Datagram)
    from Cons.prems(2) obtain c where c: "c \<in> set cs" "create_packet (fst c) (snd c) = Inr p"
      by (auto simp: Datagram)
    from Cons.prems(2)
    have rest: "\<forall>p\<in>set (datagrams evs). \<exists>c\<in>set cs. create_packet (fst c) (snd c) = Inr p"
      by (simp add: Datagram)
    have st: "server_step s ev = state_of (process_packet s r p a)"
      by (simp add: server_step_def Datagram)
    from c(1) have c': "(fst c, snd c) \<in> set cs" by simp
    from reasm_step_datagram [OF cont Cons.prems(3,4,5) r c' c(2), of a]
    have 1: "reasm_inv cs (insert c seen) (server_step s ev)"
      and 2: "drained (server_step s ev)" and 3: "loss_prob (server_step s ev) = 0"
      unfolding st by simp_all
    have only: "c' = c" if "c' \<in> set cs" "create_packet (fst c') (snd c') = Inr p" for c'
      using create_packet_inj [OF c(2) that(2)] by (simp add: prod_eq_iff)
    have d: "set (datagrams (ev # evs)) = insert p (set (datagrams evs))"
      by (simp add: Datagram)
    have one: "{c' \<in> set cs. create_packet (fst c') (snd c') = Inr p} = {c}"
      using c only by blast
    have "{c \<in> set cs. \<exists>p\<in>set (datagrams (ev # evs)). create_packet (fst c) (snd c) = Inr p}
        = {c' \<in> set cs. create_packet (fst c') (snd c') = Inr p}
          \<union> {c \<in> set cs. \<exists>p\<in>set (datagrams evs). create_packet (fst c) (snd c) = Inr p}"
      unfolding d by blast
    then have "insert c seen \<union> {c \<in> set cs. \<exists>p\<in>set (datagrams evs).
                                   create_packet (fst c) (snd c) = Inr p}
        = seen \<union> {c \<in> set cs. \<exists>p\<in>set (datagrams (ev # evs)).
                                   create_packet (fst c) (snd c) = Inr p}"
      unfolding one by blast
    with Cons.IH [OF ok rest 1 2 3] show ?thesis unfolding run by simp
  next
    case TimerFires
    have st: "server_step s ev = state_of (send_ack_after_rtt s)"
      by (simp add: server_step_def TimerFires)
    from reasm_step_timer [OF Cons.prems(3,4,5)]
    have 1: "reasm_inv cs seen (server_step s ev)"
      and 2: "drained (server_step s ev)" and 3: "loss_prob (server_step s ev) = 0"
      unfolding st by simp_all
    from Cons.prems(2)
    have rest: "\<forall>p\<in>set (datagrams evs). \<exists>c\<in>set cs. create_packet (fst c) (snd c) = Inr p"
      by (simp add: TimerFires)
    from Cons.IH [OF ok rest 1 2 3] show ?thesis unfolding run by (simp add: TimerFires)
  qed
qed

lemma reasm_complete:
  assumes cont: "contiguous 0 cs" and inv: "reasm_inv cs seen s" and dr: "drained s"
    and all: "set cs \<subseteq> seen"
  shows "output_buffer s = map snd cs \<and> expected_seq s = total_len (map snd cs)"
proof -
  from inv obtain pre post where cs: "cs = pre @ post"
    and out: "output_buffer s = map snd pre"
    and ex: "expected_seq s = total_len (map snd pre)"
    and seen: "\<And>c. c \<in> seen \<Longrightarrow>
          fst c < expected_seq s \<or> map_of (received_data s) (fst c) = Some (snd c)"
    unfolding reasm_inv_def by blast
  have "post = []"
  proof (cases post)
    case Nil
    then show ?thesis .
  next
    case (Cons c post')
    obtain q0 v0 where c: "c = (q0, v0)" by (cases c)
    from cont have "contiguous (expected_seq s) post"
      unfolding cs contiguous_append ex by simp
    then have "q0 = expected_seq s" by (simp add: Cons c)
    moreover have "c \<in> seen" using all by (auto simp: cs Cons)
    ultimately have "map_of (received_data s) (expected_seq s) = Some v0"
      using seen [of c] by (simp add: c)
    with dr show ?thesis by (simp add: drained_def)
  qed
  then show ?thesis by (simp add: cs out ex)
qed

lemma create_packets_set:
  "create_packets cs = Inr pkts \<Longrightarrow>
     (\<forall>p\<in>set pkts. \<exists>c\<in>set cs. create_packet (fst c) (snd c) = Inr p)
     \<and> (\<forall>c\<in>set cs. \<exists>p\<in>set pkts. create_packet (fst c) (snd c) = Inr p)"
proof (induction cs arbitrary: pkts)
  case Nil
  then show ?case by simp
next
  case (Cons c cs)
  obtain q v where c: "c = (q, v)" by (cases c)
  from Cons.prems obtain p ps where p: "create_packet q v = Inr p"
    and ps: "create_packets cs = Inr ps" and pkts: "pkts = p # ps"
    by (auto simp: c split: sum.splits)
  from Cons.IH [OF ps] show ?case by (auto simp: c pkts p)
qed

lemma total_len_concat: "total_len ds = int (length (concat ds))"
  by (induction ds) simp_all

lemma reassembly_of_file:
  assumes pk: "create_packets (read_file file_data) = Inr pkts"
    and ok: "list_all sample_ok evs" and arr: "set (datagrams evs) = set pkts"
  shows "output_buffer (server_run (server_init 0) evs) = map snd (read_file file_data)
       \<and> expected_seq (server_run (server_init 0) evs) = int (length file_data)"
proof -
  let ?cs = "read_file file_data"
  note cont = contiguous_read_file [of file_data]
  note sets = create_packets_set [OF pk]
  from sets arr
  have 1: "\<forall>p\<in>set (datagrams evs). \<exists>c\<in>set ?cs. create_packet (fst c) (snd c) = Inr p"
    by simp
  have li: "loss_prob (server_init 0) = 0" by (simp add: server_init_def)
  from reasm_run [OF cont ok 1 reasm_inv_init drained_init li]
  have inv: "reasm_inv ?cs ({} \<union> {c \<in> set ?cs. \<exists>p\<in>set (datagrams evs).
                 create_packet (fst c) (snd c) = Inr p}) (server_run (server_init 0) evs)"
    and dr: "drained (server_run (server_init 0) evs)"
    by blast+
  have all: "set ?cs \<subseteq> {} \<union> {c \<in> set ?cs. \<exists>p\<in>set (datagrams evs).
                 create_packet (fst c) (snd c) = Inr p}"
    using sets arr by auto
  from reasm_complete [OF cont inv dr all] show ?thesis
    by (simp add: total_len_concat read_file_concat)
qed

text \<open>
  C4.  With loss disabled (\<open>loss_prob = 0\<close>) and the packets built by
  \<open>create_packet\<close> from the segments \<open>read_file\<close> produces, any two arrival sequences
  that each deliver every packet at least once, in any order and with any
  repetitions, leave the receiver with the same \<open>output_buffer\<close>, whose concatenation
  is the file, and the same \<open>expected_seq\<close>, the length of the file.
\<close>

theorem reassembly_order_independent:
  assumes "create_packets (read_file file_data) = Inr pkts"
    and "list_all sample_ok evs1" and "set (datagrams evs1) = set pkts"
    and "list_all sample_ok evs2" and "set (datagrams evs2) = set pkts"
  shows "output_buffer (server_run (server_init 0) evs1)
           = output_buffer (server_run (server_init 0) evs2)
       \<and> concat (output_buffer (server_run (server_init 0) evs1)) = file_data
       \<and> expected_seq (server_run (server_init 0) evs1)
           = expected_seq (server_run (server_init 0) evs2)
       \<and> expected_seq (server_run (server_init 0) evs1) = int (length file_data)"
  using reassembly_of_file [OF assms(1,2,3)] reassembly_of_file [OF assms(1,4,5)]
  by (simp add: read_file_concat)

lemma read_two_chunk_file:
  "read_file two_chunk_file = [(0, replicate 1024 7), (1024, [7])]"
proof -
  have "[0..<(1025 + 1023) div 1024] = [0, 1]" by (simp add: upt_rec)
  then show ?thesis by (simp add: read_file_closed two_chunk_file_def)
qed

lemma checksum_1024: "calculate_checksum (replicate 1024 7) = 7168"
  by (simp add: calculate_checksum_def sum_list_replicate)

lemma packet_0: "create_packet 0 (replicate 1024 7) = Inr ([0, 0, 0, 0, 28, 0] @ replicate 1024 7)"
  by (simp add: create_packet_def checksum_1024 pack_I_def pack_H_def)

lemma packet_1: "create_packet 1024 [7] = Inr [0, 0, 4, 0, 0, 7, 7]"
  by (simp add: create_packet_def calculate_checksum_def pack_I_def pack_H_def)

lemma two_chunk_created:
  "create_packets (read_file two_chunk_file) = Inr two_chunk_packets"
  by (simp add: read_two_chunk_file packet_0 packet_1 two_chunk_packets_def)

theorem reassembly_order_independent_witness:
  "create_packets (read_file two_chunk_file) = Inr two_chunk_packets
   \<and> list_all sample_ok in_order \<and> set (datagrams in_order) = set two_chunk_packets
   \<and> list_all sample_ok out_of_order \<and> set (datagrams out_of_order) = set two_chunk_packets
   \<and> output_buffer (server_run (server_init 0) in_order)
        = output_buffer (server_run (server_init 0) out_of_order)
   \<and> concat (output_buffer (server_run (server_init 0) out_of_order)) = two_chunk_file
   \<and> expected_seq (server_run (server_init 0) out_of_order) = 1025"
proof -
  have 2: "list_all sample_ok in_order"
    by (simp add: in_order_def two_chunk_packets_def sample_ok_def)
  have 3: "set (datagrams in_order) = set two_chunk_packets"
    by (simp add: in_order_def two_chunk_packets_def)
  have 4: "list_all sample_ok out_of_order"
    by (simp add: out_of_order_def sample_ok_def)
  have 5: "set (datagrams out_of_order) = set two_chunk_packets"
    by (auto simp: out_of_order_def two_chunk_packets_def)
  have l: "length two_chunk_file = 1025" by (simp add: two_chunk_file_def)
  from reassembly_order_independent [OF two_chunk_created 2 3 4 5] l
  have "output_buffer (server_run (server_init 0) in_order)
        = output_buffer (server_run (server_init 0) out_of_order)
   \<and> concat (output_buffer (server_run (server_init 0) out_of_order)) = two_chunk_file
   \<and> expected_seq (server_run (server_init 0) out_of_order) = 1025"
    by (elim conjE) simp
  with two_chunk_created 2 3 4 5 show ?thesis by blast
qed

section \<open>The receiver: an ACK number beyond the four-byte field\<close>

lemma pack_I_StructError: "\<not> (0 \<le> n \<and> n < 4294967296) \<Longrightarrow> pack_I n = Inl StructError"
  unfolding pack_I_def pows by (rule if_not_P)

lemma create_packets_ok:
  "\<forall>c\<in>set cs. 0 \<le> fst c \<and> fst c < 4294967296 \<Longrightarrow> \<exists>pkts. create_packets cs = Inr pkts"
proof (induction cs)
  case Nil
  show ?case by simp
next
  case (Cons c cs)
  obtain q v where c: "c = (q, v)" by (cases c)
  from Cons.prems c have "0 \<le> q" "q < 4294967296" by simp_all
  from create_packet_ok [OF this] obtain p where p: "create_packet q v = Inr p" ..
  from Cons obtain ps where ps: "create_packets cs = Inr ps" by auto
  from p ps c show ?case by simp
qed

text \<open>Every chunk of a file of at most 4 GiB has an offset that fits the field.\<close>

lemma read_file_seq_range:
  assumes "length d \<le> 4294967296"
  shows "\<forall>c\<in>set (read_file d). 0 \<le> fst c \<and> fst c < 4294967296"
proof
  fix c assume "c \<in> set (read_file d)"
  then obtain k where k: "k < (length d + 1023) div 1024" "fst c = int (1024 * k)"
    unfolding read_file_closed by auto
  from k(1) assms have "1024 * k < 4294967296" by linarith
  with k(2) show "0 \<le> fst c \<and> fst c < 4294967296" by simp
qed

lemma datagrams_map: "datagrams (map (\<lambda>p. Datagram r p a) pkts) = pkts"
  by (induction pkts) simp_all

lemma sample_ok_map:
  "0 \<le> r \<Longrightarrow> r < 1 \<Longrightarrow> list_all sample_ok (map (\<lambda>p. Datagram r p a) pkts)"
  by (induction pkts) (simp_all add: sample_ok_def)

lemma server_step_loss_prob: "loss_prob (server_step s ev) = loss_prob s"
proof (cases ev)
  case (Datagram r p a)
  from process_packet_effect [of s r p a]
    drain_frame [of "store (latch s a) (unpack_I (take 4 p)) (drop 6 p)"]
  have "loss_prob (state_of (process_packet s r p a)) = loss_prob s"
    by (auto simp: store_frame latch_frame)
  with Datagram show ?thesis by (simp add: server_step_def)
next
  case TimerFires
  with send_ack_after_rtt_effect [of s] show ?thesis by (simp add: server_step_def)
qed

lemma server_run_loss_prob: "loss_prob (server_run s evs) = loss_prob s"
  unfolding server_run_def by (induction evs arbitrary: s) (simp_all add: server_step_loss_prob)

lemma four_gib_length: "length four_gib_file = 4294967296"
  unfolding four_gib_file_def by (rule length_replicate)

text \<open>The receiver reaches \<open>expected_seq = 2^32\<close>: the file's packets can all be
  built, and delivered in order they are reassembled.\<close>

lemma four_gib_reached:
  "server_reachable four_gib_delivered \<and> expected_seq four_gib_delivered = 4294967296
   \<and> loss_prob four_gib_delivered = 0"
proof -
  have "length four_gib_file \<le> 4294967296" unfolding four_gib_length by (rule order_refl)
  from create_packets_ok [OF read_file_seq_range [OF this]]
  obtain pkts where pk: "create_packets (read_file four_gib_file) = Inr pkts" ..
  let ?evs = "map (\<lambda>p. Datagram 0 p (''client'', 5000)) pkts"
  from pk have ev: "four_gib_events = ?evs" by (simp add: four_gib_events_def)
  have ok: "list_all sample_ok ?evs" by (rule sample_ok_map) simp_all
  have arr: "set (datagrams ?evs) = set pkts" unfolding datagrams_map ..
  from reassembly_of_file [OF pk ok arr]
  have e: "expected_seq (server_run (server_init 0) ?evs) = int (length four_gib_file)" by blast
  have 1: "server_reachable four_gib_delivered"
    unfolding server_reachable_def four_gib_delivered_def ev using ok by blast
  have 2: "expected_seq four_gib_delivered = 4294967296"
    unfolding four_gib_delivered_def ev e four_gib_length by simp
  have 3: "loss_prob four_gib_delivered = 0"
    unfolding four_gib_delivered_def server_run_loss_prob by (simp add: server_init_def)
  from 1 2 3 show ?thesis by blast
qed

lemma first_packet_again_accepted:
  "create_packet 0 (replicate 1024 0) = Inr first_packet_again"
  "SEQ_NUM_SIZE + CHECKSUM_SIZE \<le> length first_packet_again"
  "verify_checksum (drop 6 first_packet_again) (unpack_H (take 2 (drop 4 first_packet_again)))"
  "unpack_I (take 4 first_packet_again) = 0"
  by (simp_all add: first_packet_again_def create_packet_def calculate_checksum_def
      sum_list_replicate pack_I_def pack_H_def SEQ_NUM_SIZE_def CHECKSUM_SIZE_def
      verify_checksum_def unpack_H_def unpack_I_def)

text \<open>
  The claim C6 as stated fails once \<open>expected_seq\<close> has left the four-byte field.
  After the packets of a file of exactly 4 GiB have been delivered, \<open>expected_seq\<close>
  is \<open>2^32\<close>.  A second copy of the first packet is accepted and is a duplicate, but
  \<open>struct.pack('!I', 4294967296)\<close> in \<open>send_ack\<close> raises \<open>struct.error\<close>: the call
  counts the packet and sends no ACK.
\<close>

theorem ack_field_overflow_counterexample:
  "server_reachable four_gib_delivered
   \<and> expected_seq four_gib_delivered = 4294967296
   \<and> SEQ_NUM_SIZE + CHECKSUM_SIZE \<le> length first_packet_again
   \<and> \<not> 1 / 2 < loss_prob four_gib_delivered
   \<and> verify_checksum (drop 6 first_packet_again)
        (unpack_H (take 2 (drop 4 first_packet_again)))
   \<and> unpack_I (take 4 first_packet_again) < expected_seq four_gib_delivered
   \<and> process_packet four_gib_delivered (1 / 2) first_packet_again (''client'', 5000) =
       Inl (StructError, four_gib_delivered
              \<lparr>total_packets_received := total_packets_received four_gib_delivered + 1\<rparr>)"
proof -
  let ?s = four_gib_delivered and ?a = "(''client'', 5000) :: addr"
  note r = four_gib_reached
  from r have e: "expected_seq ?s = 4294967296" and lp: "loss_prob ?s = 0" by blast+
  have 3: "\<not> (1 / 2 :: real) < loss_prob ?s" unfolding lp by simp
  have 5: "unpack_I (take 4 first_packet_again) < expected_seq ?s"
    unfolding e first_packet_again_accepted(4) by simp
  from first_packet_again_accepted(2) have len: "6 \<le> length first_packet_again"
    by (simp add: SEQ_NUM_SIZE_def CHECKSUM_SIZE_def)
  from r have "server_inv ?s" using server_reachable_inv by blast
  with e have "client_addr ?s \<noteq> None" by (simp add: server_inv_def)
  then have l: "latch ?s ?a = ?s\<lparr>total_packets_received := total_packets_received ?s + 1\<rparr>"
    by (simp add: latch_def Let_def)
  have pk: "pack_I (expected_seq ?s) = Inl StructError"
    unfolding e by (rule pack_I_StructError) simp
  have "process_packet ?s (1 / 2) first_packet_again ?a
          = send_ack (latch ?s ?a) ?a (expected_seq ?s)"
    using len 3 first_packet_again_accepted(3) 5 by (rule process_packet_duplicate)
  also have "\<dots> = Inl (StructError, ?s\<lparr>total_packets_received := total_packets_received ?s + 1\<rparr>)"
    unfolding l by (rule send_ack_Inl [OF pk])
  finally show ?thesis using r first_packet_again_accepted(2,3) 3 5 by blast
qed

section \<open>The sender: what each method does\<close>

lemma py_int_of_int [simp]: "py_int (of_int k) = k"
  by (simp add: py_int_def)

lemma py_int_half: "max (py_int (real_of_int c / 2)) 2 = max (c div 2) 2"
proof (cases "0 \<le> c")
  case True
  have "\<lfloor>real_of_int c / 2\<rfloor> = c div 2"
    using floor_divide_of_int_eq [of c 2, where ?'a = real] by simp
  with True show ?thesis by (simp add: py_int_def)
next
  case False
  then have "real_of_int c / 2 < 0" by simp
  then have "py_int (real_of_int c / 2) = \<lceil>real_of_int c / 2\<rceil>" by (simp add: py_int_def)
  moreover have "\<lceil>real_of_int c / 2\<rceil> \<le> 0" using False by (simp add: ceiling_le_iff)
  moreover have "c div 2 \<le> 0" using False by simp
  ultimately show ?thesis by simp
qed

lemma py_int_growth:
  assumes "1 \<le> c" "0 \<le> k"
  shows "py_int (real_of_int c + real_of_int k / real_of_int c) = c + k div c"
proof -
  have nn: "0 \<le> real_of_int c + real_of_int k / real_of_int c" using assms by simp
  have "\<lfloor>real_of_int c + real_of_int k / real_of_int c\<rfloor> = c + \<lfloor>real_of_int k / real_of_int c\<rfloor>"
    by (simp add: floor_add_int)
  also have "\<lfloor>real_of_int k / real_of_int c\<rfloor> = k div c"
    by (rule floor_divide_of_int_eq)
  finally show ?thesis using nn by (simp add: py_int_def)
qed

lemma clamp_is_max: "(if 1 \<le> x then py_int x else 1) = max 1 (py_int x)"
proof (cases "1 \<le> x")
  case True
  then have "1 \<le> \<lfloor>x\<rfloor>" by simp
  with True show ?thesis by (simp add: py_int_def)
next
  case False
  then have "py_int x \<le> 0"
    by (auto simp: py_int_def ceiling_le_iff floor_le_iff)
  with False show ?thesis by simp
qed

lemma record_retransmission_Some:
  "start_time s = Some t0 \<Longrightarrow>
   record_retransmission s now =
     Inr (s\<lparr>retransmission_history :=
              retransmission_history s @ [(now - t0, total_retransmissions s)]\<rparr>)"
  by (simp add: record_retransmission_def)

lemma record_retransmission_Inr:
  "record_retransmission s now = Inr s' \<Longrightarrow>
     \<exists>t0. start_time s = Some t0 \<and>
       s' = s\<lparr>retransmission_history :=
              retransmission_history s @ [(now - t0, total_retransmissions s)]\<rparr>"
  by (auto simp: record_retransmission_def split: option.splits)

lemma send_packet_first:
  assumes "create_packet q d = Inr p" "map_of (unacked_packets s) q = None"
  shows "send_packet s now q d False =
     Inr (s\<lparr>sent := sent s @ [p],
            unacked_packets := AList.update q (p, now, 0) (unacked_packets s)\<rparr>)"
  using assms by (simp add: send_packet_def Let_def)

lemma send_packet_again:
  assumes "create_packet q d = Inr p" "map_of (unacked_packets s) q = Some (op, ot, rc)"
    "start_time s = Some t0"
  shows "send_packet s now q d is_retransmit =
     Inr (s\<lparr>sent := sent s @ [p],
            unacked_packets := AList.update q (p, now, rc + 1) (unacked_packets s),
            total_retransmissions := total_retransmissions s + 1,
            timeout_retransmissions :=
              (if is_retransmit then timeout_retransmissions s + 1 else timeout_retransmissions s),
            fast_retransmissions :=
              (if is_retransmit then fast_retransmissions s else fast_retransmissions s + 1),
            retransmission_history :=
              retransmission_history s @ [(now - t0, total_retransmissions s + 1)]\<rparr>)"
  using assms by (simp add: send_packet_def Let_def record_retransmission_def)

lemma send_packet_effect:
  assumes "send_packet s now q d is_retransmit = Inr s'"
  shows "\<exists>p. create_packet q d = Inr p \<and> sent s' = sent s @ [p]
      \<and> unacked_packets s' =
          AList.update q (p, now, case map_of (unacked_packets s) q of
                                    None \<Rightarrow> 0 | Some (op, ot, rc) \<Rightarrow> rc + 1)
            (unacked_packets s)"
    and "chunks s' = chunks s" "total_chunks s' = total_chunks s" "cwnd s' = cwnd s"
    and "ssthresh s' = ssthresh s" "state s' = state s"
    and "last_acked_seq s' = last_acked_seq s" "last_ack_received s' = last_ack_received s"
    and "duplicate_ack_count s' = duplicate_ack_count s" "start_time s' = start_time s"
    and "map_of (unacked_packets s) q = None \<and> \<not> is_retransmit \<Longrightarrow>
           total_retransmissions s' = total_retransmissions s
         \<and> timeout_retransmissions s' = timeout_retransmissions s
         \<and> fast_retransmissions s' = fast_retransmissions s"
    and "is_retransmit \<Longrightarrow>
           total_retransmissions s' = total_retransmissions s + 1
         \<and> timeout_retransmissions s' = timeout_retransmissions s + 1
         \<and> fast_retransmissions s' = fast_retransmissions s"
    and "map_of (unacked_packets s) q \<noteq> None \<and> \<not> is_retransmit \<Longrightarrow>
           total_retransmissions s' = total_retransmissions s + 1
         \<and> timeout_retransmissions s' = timeout_retransmissions s
         \<and> fast_retransmissions s' = fast_retransmissions s + 1"
  using assms
  by (auto simp: send_packet_def Let_def record_retransmission_def
      split: sum.splits option.splits if_splits)

lemma fast_retransmit_none:
  "map_of (chunks s) q = None \<Longrightarrow> fast_retransmit s now q = Inr s"
  by (simp add: fast_retransmit_def)

lemma fast_retransmit_some:
  assumes "map_of (chunks s) q = Some d" "create_packet q d = Inr p" "start_time s = Some t0"
  shows "fast_retransmit s now q =
     Inr (s\<lparr>sent := sent s @ [p],
            unacked_packets :=
              AList.update q (p, now, case map_of (unacked_packets s) q of
                                        None \<Rightarrow> 1 | Some (op, ot, rc) \<Rightarrow> rc + 1)
                (unacked_packets s),
            total_retransmissions := total_retransmissions s + 1,
            fast_retransmissions := fast_retransmissions s + 1,
            retransmission_history :=
              retransmission_history s @ [(now - t0, total_retransmissions s + 1)],
            ssthresh := max (cwnd s div 2) 2,
            cwnd := max (cwnd s div 2) 2 + 3,
            state := congestion_avoidance,
            duplicate_ack_count := 0\<rparr>)"
  using assms
  by (cases "map_of (unacked_packets s) q")
     (auto simp: fast_retransmit_def Let_def record_retransmission_def py_int_half)

lemma fast_retransmit_Inr:
  assumes "fast_retransmit s now q = Inr s'"
  shows "(map_of (chunks s) q = None \<and> s' = s)
      \<or> (\<exists>d p t0. map_of (chunks s) q = Some d \<and> create_packet q d = Inr p
            \<and> start_time s = Some t0)"
  using assms
  by (auto simp: fast_retransmit_def Let_def record_retransmission_def
      split: option.splits sum.splits)

lemma handle_ack_duplicate:
  "ack_num = last_ack_received s \<Longrightarrow>
     handle_ack s now ack_num =
       (if duplicate_ack_count s + 1 = 3
        then fast_retransmit (s\<lparr>duplicate_ack_count := duplicate_ack_count s + 1\<rparr>) now ack_num
        else Inr (s\<lparr>duplicate_ack_count := duplicate_ack_count s + 1\<rparr>))"
  by (simp add: handle_ack_def Let_def FAST_RETRANSMIT_DUP_ACKS_def)

lemma handle_ack_new:
  "last_ack_received s < ack_num \<Longrightarrow> handle_ack s now ack_num = new_ack s now ack_num"
  by (simp add: handle_ack_def)

lemma handle_ack_stale:
  "ack_num < last_ack_received s \<Longrightarrow> handle_ack s now ack_num = Inr s"
  by (simp add: handle_ack_def)

text \<open>
  C1, as amended.  An ACK equal to \<open>last_ack_received\<close> increments
  \<open>duplicate_ack_count\<close>.  When the count reaches exactly 3 and the segment table holds
  a segment whose sequence number is the ACK number, the sender (the transfer being
  started and the number fitting the 4-byte field) re-sends that segment with its
  payload from the table, sets \<open>ssthresh\<close> to \<open>max (cwnd div 2) 2\<close>, \<open>cwnd\<close> to
  \<open>ssthresh + 3\<close>, the phase to congestion avoidance and the count to 0.  When the
  table holds no such segment, only the count changes.
\<close>

theorem duplicate_ack_fast_retransmit:
  assumes "ack_num = last_ack_received s"
  shows "(duplicate_ack_count s + 1 \<noteq> 3 \<longrightarrow>
            handle_ack s now ack_num
              = Inr (s\<lparr>duplicate_ack_count := duplicate_ack_count s + 1\<rparr>))
       \<and> (duplicate_ack_count s + 1 = 3 \<and> map_of (chunks s) ack_num = None \<longrightarrow>
            handle_ack s now ack_num
              = Inr (s\<lparr>duplicate_ack_count := duplicate_ack_count s + 1\<rparr>))
       \<and> (\<forall>payload t0.
            duplicate_ack_count s + 1 = 3 \<and> map_of (chunks s) ack_num = Some payload
            \<and> 0 \<le> ack_num \<and> ack_num < 2 ^ 32 \<and> start_time s = Some t0 \<longrightarrow>
            (\<exists>packet s'. create_packet ack_num payload = Inr packet
               \<and> handle_ack s now ack_num = Inr s'
               \<and> sent s' = sent s @ [packet]
               \<and> ssthresh s' = max (cwnd s div 2) 2
               \<and> cwnd s' = ssthresh s' + 3
               \<and> state s' = congestion_avoidance
               \<and> duplicate_ack_count s' = 0
               \<and> map_of (unacked_packets s') ack_num =
                   Some (packet, now, case map_of (unacked_packets s) ack_num of
                                        None \<Rightarrow> 1 | Some (op, ot, rc) \<Rightarrow> rc + 1)
               \<and> total_retransmissions s' = total_retransmissions s + 1
               \<and> fast_retransmissions s' = fast_retransmissions s + 1
               \<and> timeout_retransmissions s' = timeout_retransmissions s
               \<and> last_ack_received s' = last_ack_received s))"
proof (intro conjI allI impI)
  assume "duplicate_ack_count s + 1 \<noteq> 3"
  then show "handle_ack s now ack_num
              = Inr (s\<lparr>duplicate_ack_count := duplicate_ack_count s + 1\<rparr>)"
    by (simp add: handle_ack_duplicate [OF assms])
next
  assume "duplicate_ack_count s + 1 = 3 \<and> map_of (chunks s) ack_num = None"
  then show "handle_ack s now ack_num
              = Inr (s\<lparr>duplicate_ack_count := duplicate_ack_count s + 1\<rparr>)"
    by (simp add: handle_ack_duplicate [OF assms] fast_retransmit_none)
next
  fix payload t0
  assume h: "duplicate_ack_count s + 1 = 3 \<and> map_of (chunks s) ack_num = Some payload
            \<and> 0 \<le> ack_num \<and> ack_num < 2 ^ 32 \<and> start_time s = Some t0"
  let ?s1 = "s\<lparr>duplicate_ack_count := duplicate_ack_count s + 1\<rparr>"
  from h have "0 \<le> ack_num" "ack_num < 4294967296" unfolding pows by simp_all
  from create_packet_ok [OF this] obtain p where p: "create_packet ack_num payload = Inr p" ..
  have c: "map_of (chunks ?s1) ack_num = Some payload" and st: "start_time ?s1 = Some t0"
    using h by simp_all
  define s' where "s' =
      s\<lparr>sent := sent s @ [p],
            unacked_packets :=
              AList.update ack_num (p, now, case map_of (unacked_packets s) ack_num of
                                        None \<Rightarrow> 1 | Some (op, ot, rc) \<Rightarrow> rc + 1)
                (unacked_packets s),
            total_retransmissions := total_retransmissions s + 1,
            fast_retransmissions := fast_retransmissions s + 1,
            retransmission_history :=
              retransmission_history s @ [(now - t0, total_retransmissions s + 1)],
            ssthresh := max (cwnd s div 2) 2,
            cwnd := max (cwnd s div 2) 2 + 3,
            state := congestion_avoidance,
            duplicate_ack_count := 0\<rparr>"
  have "handle_ack s now ack_num = fast_retransmit ?s1 now ack_num"
    using h by (simp add: handle_ack_duplicate [OF assms])
  also have "\<dots> = Inr s'"
    unfolding fast_retransmit_some [OF c p st] s'_def by simp
  finally have eq: "handle_ack s now ack_num = Inr s'" .
  show "\<exists>packet s'. create_packet ack_num payload = Inr packet
               \<and> handle_ack s now ack_num = Inr s'
               \<and> sent s' = sent s @ [packet]
               \<and> ssthresh s' = max (cwnd s div 2) 2
               \<and> cwnd s' = ssthresh s' + 3
               \<and> state s' = congestion_avoidance
               \<and> duplicate_ack_count s' = 0
               \<and> map_of (unacked_packets s') ack_num =
                   Some (packet, now, case map_of (unacked_packets s) ack_num of
                                        None \<Rightarrow> 1 | Some (op, ot, rc) \<Rightarrow> rc + 1)
               \<and> total_retransmissions s' = total_retransmissions s + 1
               \<and> fast_retransmissions s' = fast_retransmissions s + 1
               \<and> timeout_retransmissions s' = timeout_retransmissions s
               \<and> last_ack_received s' = last_ack_received s"
    by (rule exI [of _ p], rule exI [of _ s']) (simp add: p eq s'_def AList.update_conv')
qed

lemma pop_acked_unacked:
  "unacked_packets (pop_acked now q s) = AList.delete q (unacked_packets s)"
proof (cases "map_of (unacked_packets s) q")
  case None
  then have "q \<notin> fst ` set (unacked_packets s)" by (simp add: map_of_eq_None_iff)
  with None show ?thesis by (simp add: pop_acked_def)
next
  case (Some e)
  then show ?thesis by (cases e) (simp add: pop_acked_def Let_def)
qed

lemma pop_acked_frame:
  "chunks (pop_acked now q s) = chunks s" "total_chunks (pop_acked now q s) = total_chunks s"
  "cwnd (pop_acked now q s) = cwnd s" "ssthresh (pop_acked now q s) = ssthresh s"
  "state (pop_acked now q s) = state s" "last_acked_seq (pop_acked now q s) = last_acked_seq s"
  "last_ack_received (pop_acked now q s) = last_ack_received s"
  "duplicate_ack_count (pop_acked now q s) = duplicate_ack_count s"
  "start_time (pop_acked now q s) = start_time s"
  "total_retransmissions (pop_acked now q s) = total_retransmissions s"
  "timeout_retransmissions (pop_acked now q s) = timeout_retransmissions s"
  "fast_retransmissions (pop_acked now q s) = fast_retransmissions s"
  "sent (pop_acked now q s) = sent s"
  by (simp_all add: pop_acked_def Let_def split: option.splits prod.splits)

lemma fold_pop_acked_frame:
  "chunks (fold (pop_acked now) qs s) = chunks s"
  "total_chunks (fold (pop_acked now) qs s) = total_chunks s"
  "cwnd (fold (pop_acked now) qs s) = cwnd s" "ssthresh (fold (pop_acked now) qs s) = ssthresh s"
  "state (fold (pop_acked now) qs s) = state s"
  "last_acked_seq (fold (pop_acked now) qs s) = last_acked_seq s"
  "last_ack_received (fold (pop_acked now) qs s) = last_ack_received s"
  "duplicate_ack_count (fold (pop_acked now) qs s) = duplicate_ack_count s"
  "start_time (fold (pop_acked now) qs s) = start_time s"
  "total_retransmissions (fold (pop_acked now) qs s) = total_retransmissions s"
  "timeout_retransmissions (fold (pop_acked now) qs s) = timeout_retransmissions s"
  "fast_retransmissions (fold (pop_acked now) qs s) = fast_retransmissions s"
  "sent (fold (pop_acked now) qs s) = sent s"
  by (induction qs arbitrary: s; simp add: pop_acked_frame)+

lemma fold_pop_acked_unacked:
  "unacked_packets (fold (pop_acked now) qs s)
     = filter (\<lambda>e. fst e \<notin> set qs) (unacked_packets s)"
proof (induction qs arbitrary: s)
  case Nil
  then show ?case by simp
next
  case (Cons q qs)
  have "filter (\<lambda>e. fst e \<notin> set qs) (AList.delete q (unacked_packets s))
      = filter (\<lambda>e. fst e \<notin> set (q # qs)) (unacked_packets s)"
    by (auto simp: AList.delete_eq intro: filter_cong)
  then show ?case by (simp add: Cons.IH pop_acked_unacked)
qed

lemma acked_packets_covers:
  "acked_packets s ack_num = filter (covers s ack_num) (map fst (unacked_packets s))"
  unfolding acked_packets_def covers_def ..

lemma covers_cong: "chunks s' = chunks s \<Longrightarrow> covers s' = covers s"
  by (intro ext) (simp add: covers_def packet_size_of_def)

lemma remaining_after_ack:
  "filter (\<lambda>e. fst e \<notin> set (acked_packets s ack_num)) (unacked_packets s)
     = filter (\<lambda>e. \<not> covers s ack_num (fst e)) (unacked_packets s)"
  by (rule filter_cong) (auto simp: acked_packets_covers)

lemma count_acked:
  "int (length (acked_packets s ack_num))
     = int (length (unacked_packets s))
       - int (length (filter (\<lambda>e. \<not> covers s ack_num (fst e)) (unacked_packets s)))"
proof -
  have "length (acked_packets s ack_num)
      = length (filter (\<lambda>e. covers s ack_num (fst e)) (unacked_packets s))"
    unfolding acked_packets_covers filter_map by (simp add: comp_def)
  moreover have "length (filter (\<lambda>e. covers s ack_num (fst e)) (unacked_packets s))
      + length (filter (\<lambda>e. \<not> covers s ack_num (fst e)) (unacked_packets s))
      = length (unacked_packets s)"
    by (rule sum_length_filter_compl)
  ultimately show ?thesis by simp
qed

lemma acked_packets_cong:
  "chunks s' = chunks s \<Longrightarrow> unacked_packets s' = unacked_packets s \<Longrightarrow>
   acked_packets s' ack_num = acked_packets s ack_num"
  by (simp add: acked_packets_def packet_size_of_def)

lemma new_ack_result:
  fixes s now ack_num
  assumes st: "start_time s = Some t0"
    and nz: "state s = congestion_avoidance \<longrightarrow> cwnd s \<noteq> 0"
  defines "K \<equiv> int (length (acked_packets s ack_num))"
  shows "\<exists>s'. new_ack s now ack_num = Inr s'
      \<and> unacked_packets s' = filter (\<lambda>e. \<not> covers s ack_num (fst e)) (unacked_packets s)
      \<and> last_ack_received s' = ack_num \<and> duplicate_ack_count s' = 0
      \<and> last_acked_seq s' = max (last_acked_seq s) (ack_num - 1)
      \<and> ssthresh s' = ssthresh s \<and> chunks s' = chunks s \<and> total_chunks s' = total_chunks s
      \<and> start_time s' = start_time s \<and> sent s' = sent s
      \<and> total_retransmissions s' = total_retransmissions s
      \<and> timeout_retransmissions s' = timeout_retransmissions s
      \<and> fast_retransmissions s' = fast_retransmissions s
      \<and> cwnd s' = (if state s = slow_start then cwnd s + K
                   else max 1 (py_int (real_of_int (cwnd s) + real_of_int K / real_of_int (cwnd s))))
      \<and> state s' = (if state s = slow_start \<and> cwnd s + K < ssthresh s
                    then slow_start else congestion_avoidance)"
proof -
  let ?s1 = "s\<lparr>duplicate_ack_count := 0, last_ack_received := ack_num\<rparr>"
  let ?s2 = "fold (pop_acked now) (acked_packets s ack_num) ?s1"
  define s3 where "s3 = ?s2\<lparr>last_acked_seq := max (last_acked_seq ?s2) (ack_num - 1)\<rparr>"
  have a: "acked_packets ?s1 ack_num = acked_packets s ack_num"
    by (rule acked_packets_cong) simp_all
  have u: "unacked_packets s3 = filter (\<lambda>e. \<not> covers s ack_num (fst e)) (unacked_packets s)"
    unfolding s3_def using remaining_after_ack [of s ack_num] by (simp add: fold_pop_acked_unacked)
  have f: "cwnd s3 = cwnd s" "ssthresh s3 = ssthresh s" "state s3 = state s"
    "start_time s3 = Some t0" "chunks s3 = chunks s" "total_chunks s3 = total_chunks s"
    "sent s3 = sent s" "last_ack_received s3 = ack_num" "duplicate_ack_count s3 = 0"
    "last_acked_seq s3 = max (last_acked_seq s) (ack_num - 1)"
    "total_retransmissions s3 = total_retransmissions s"
    "timeout_retransmissions s3 = timeout_retransmissions s"
    "fast_retransmissions s3 = fast_retransmissions s"
    unfolding s3_def by (simp_all add: fold_pop_acked_frame st)
  have n: "new_ack s now ack_num =
     (case (if state s3 = slow_start
               then
                 (let s4 = s3\<lparr>cwnd := cwnd s3 + K\<rparr>
                  in Inr (if cwnd s4 \<ge> ssthresh s4
                          then s4\<lparr>state := congestion_avoidance\<rparr> else s4))
               else if cwnd s3 = 0 then Inl ZeroDivisionError
               else
                 (let x = real_of_int (cwnd s3)
                            + real_of_int K / real_of_int (cwnd s3)
                  in Inr (s3\<lparr>cwnd := (if x \<ge> 1 then py_int x else 1)\<rparr>)))
         of
           Inl e \<Rightarrow> Inl e
         | Inr s5 \<Rightarrow>
             (case start_time s5 of
                None \<Rightarrow> Inl TypeError
              | Some t0 \<Rightarrow>
                  let current_time = now - t0;
                      rtt_number = (if current_rtt s5 > 0
                                    then py_int (current_time / current_rtt s5) else 0)
                  in Inr (s5\<lparr>cwnd_history := cwnd_history s5 @ [(rtt_number, cwnd s5)]\<rparr>)))"
    unfolding new_ack_def Let_def s3_def K_def a by (rule refl)
  show ?thesis
  proof (cases "state s")
    case slow_start
    show ?thesis
      unfolding n using slow_start u f st by (simp add: Let_def not_le)
  next
    case congestion_avoidance
    with nz have "cwnd s \<noteq> 0" by simp
    then show ?thesis
      unfolding n using congestion_avoidance u f st
      by (simp add: Let_def clamp_is_max del: max.absorb_iff2 max.absorb_iff1)
  qed
qed

lemma covers_iff:
  assumes "\<forall>c\<in>set (chunks s). snd c \<noteq> []"
  shows "covers s ack_num q \<longleftrightarrow>
           (\<exists>d. map_of (chunks s) q = Some d \<and> q + int (length d) \<le> ack_num)"
proof (cases "map_of (chunks s) q")
  case None
  then show ?thesis by (simp add: covers_def packet_size_of_def)
next
  case (Some d)
  then have "(q, d) \<in> set (chunks s)" by (rule map_of_SomeD)
  with assms have "d \<noteq> []" by fastforce
  with Some show ?thesis by (simp add: covers_def packet_size_of_def)
qed

text \<open>
  C2.  An ACK above \<open>last_ack_received\<close> removes from \<open>unacked_packets\<close> the entries
  whose segment ends at or before the ACK number; with \<open>K\<close> the number removed, slow
  start adds \<open>K\<close> to \<open>cwnd\<close> and moves to congestion avoidance exactly when the new
  \<open>cwnd\<close> reaches \<open>ssthresh\<close>, and congestion avoidance sets \<open>cwnd\<close> to
  \<open>cwnd + K / cwnd\<close> truncated toward zero, and to 1 if that is below 1.
\<close>

theorem new_ack_window_growth:
  assumes "last_ack_received s < ack_num"
    and "start_time s = Some t0"
    and "\<forall>c\<in>set (chunks s). snd c \<noteq> []"
    and "state s = congestion_avoidance \<longrightarrow> cwnd s \<noteq> 0"
  shows "\<exists>s' K. handle_ack s now ack_num = Inr s'
     \<and> unacked_packets s' =
         filter (\<lambda>e. \<not> (\<exists>d. map_of (chunks s) (fst e) = Some d
                             \<and> fst e + int (length d) \<le> ack_num))
           (unacked_packets s)
     \<and> K = int (length (unacked_packets s)) - int (length (unacked_packets s'))
     \<and> (state s = slow_start \<longrightarrow>
           cwnd s' = cwnd s + K
           \<and> (state s' = congestion_avoidance \<longleftrightarrow> ssthresh s \<le> cwnd s'))
     \<and> (state s = congestion_avoidance \<longrightarrow>
           cwnd s' = max 1 (py_int (real_of_int (cwnd s) + real_of_int K / real_of_int (cwnd s)))
           \<and> (1 \<le> cwnd s \<longrightarrow> cwnd s' = cwnd s + K div cwnd s)
           \<and> state s' = congestion_avoidance)"
proof -
  let ?K = "int (length (acked_packets s ack_num))"
  from new_ack_result [OF assms(2,4), where ack_num = ack_num and now = now] obtain s' where
    r: "new_ack s now ack_num = Inr s'"
    and u: "unacked_packets s' = filter (\<lambda>e. \<not> covers s ack_num (fst e)) (unacked_packets s)"
    and c: "cwnd s' = (if state s = slow_start then cwnd s + ?K
                   else max 1 (py_int (real_of_int (cwnd s) + real_of_int ?K / real_of_int (cwnd s))))"
    and p: "state s' = (if state s = slow_start \<and> cwnd s + ?K < ssthresh s
                    then slow_start else congestion_avoidance)"
    by blast
  have 1: "handle_ack s now ack_num = Inr s'"
    using handle_ack_new [OF assms(1)] r by simp
  have 2: "unacked_packets s' =
         filter (\<lambda>e. \<not> (\<exists>d. map_of (chunks s) (fst e) = Some d
                             \<and> fst e + int (length d) \<le> ack_num))
           (unacked_packets s)"
    unfolding u covers_iff [OF assms(3)] ..
  have 3: "?K = int (length (unacked_packets s)) - int (length (unacked_packets s'))"
    unfolding u by (rule count_acked)
  have 4: "state s = slow_start \<longrightarrow>
           cwnd s' = cwnd s + ?K
           \<and> (state s' = congestion_avoidance \<longleftrightarrow> ssthresh s \<le> cwnd s')"
    using c p by auto
  have 5: "state s = congestion_avoidance \<longrightarrow>
           cwnd s' = max 1 (py_int (real_of_int (cwnd s) + real_of_int ?K / real_of_int (cwnd s)))
           \<and> (1 \<le> cwnd s \<longrightarrow> cwnd s' = cwnd s + ?K div cwnd s)
           \<and> state s' = congestion_avoidance"
  proof
    assume ca: "state s = congestion_avoidance"
    have g: "cwnd s' = cwnd s + ?K div cwnd s" if "1 \<le> cwnd s"
    proof -
      have "0 \<le> ?K div cwnd s" using that by (simp add: pos_imp_zdiv_nonneg_iff)
      then show ?thesis using c ca that py_int_growth [OF that, of ?K] by simp
    qed
    from c p ca g show "cwnd s' = max 1 (py_int (real_of_int (cwnd s) + real_of_int ?K / real_of_int (cwnd s)))
           \<and> (1 \<le> cwnd s \<longrightarrow> cwnd s' = cwnd s + ?K div cwnd s)
           \<and> state s' = congestion_avoidance"
      by simp
  qed
  show ?thesis
    apply (rule exI [of _ s'], rule exI [of _ ?K])
    using 1 2 3 4 5 by blast
qed

section \<open>The sender: timeouts\<close>

lemma update_distinct_map:
  "distinct (map fst al) \<Longrightarrow> k \<in> fst ` set al \<Longrightarrow>
     AList.update k v al = map (\<lambda>e. if fst e = k then (k, v) else e) al"
proof (induction al)
  case Nil
  then show ?case by simp
next
  case (Cons a al)
  show ?case
  proof (cases "fst a = k")
    case True
    from Cons.prems(1) have "fst a \<notin> fst ` set al" by simp
    with True have "\<forall>e\<in>set al. fst e \<noteq> k" by (auto simp: image_iff)
    then have "map (\<lambda>e. if fst e = k then (k, v) else e) al = al"
      by (induction al) auto
    with True show ?thesis by (cases a) simp
  next
    case False
    with Cons show ?thesis by (cases a) auto
  qed
qed

lemma segment_packet_cong: "chunks s' = chunks s \<Longrightarrow> segment_packet s' = segment_packet s"
  by (intro ext) (simp add: segment_packet_def)

lemma retransmitted_cong: "chunks s' = chunks s \<Longrightarrow> retransmitted s' = retransmitted s"
  using segment_packet_cong [of s' s] by (intro ext) (simp add: retransmitted_def)

lemma fst_retransmitted [simp]: "fst (retransmitted s now e) = fst e"
  by (cases e) (simp add: retransmitted_def split: option.splits)

lemma segment_packet_Some:
  "segment_packet s q = Some p \<longleftrightarrow>
     (\<exists>d. map_of (chunks s) q = Some d \<and> create_packet q d = Inr p)"
  by (auto simp: segment_packet_def split: option.splits sum.splits)

lemma timeout_retransmit_known:
  assumes sp: "segment_packet s q = Some p"
    and u: "map_of (unacked_packets s) q = Some (op, ot, rc)"
    and st: "start_time s = Some t0"
  shows "timeout_retransmit s now q =
     Inr (s\<lparr>ssthresh := max (cwnd s div 2) 2, cwnd := 1, state := slow_start,
            sent := sent s @ [p],
            unacked_packets := AList.update q (p, now, rc + 1) (unacked_packets s),
            total_retransmissions := total_retransmissions s + 1,
            timeout_retransmissions := timeout_retransmissions s + 1,
            retransmission_history :=
              retransmission_history s @ [(now - t0, total_retransmissions s + 1)]\<rparr>)"
proof -
  from sp obtain d where c: "map_of (chunks s) q = Some d" and p: "create_packet q d = Inr p"
    unfolding segment_packet_Some by blast
  define m where "m = max (cwnd s div 2) 2"
  let ?s2 = "s\<lparr>ssthresh := m, cwnd := 1, state := slow_start\<rparr>"
  have "timeout_retransmit s now q = send_packet ?s2 now q d True"
    by (simp only: timeout_retransmit_def Let_def c option.case py_int_half INITIAL_CWND_def m_def)
  also have "\<dots> = Inr (?s2\<lparr>sent := sent ?s2 @ [p],
            unacked_packets := AList.update q (p, now, rc + 1) (unacked_packets ?s2),
            total_retransmissions := total_retransmissions ?s2 + 1,
            timeout_retransmissions :=
              (if True then timeout_retransmissions ?s2 + 1 else timeout_retransmissions ?s2),
            fast_retransmissions :=
              (if True then fast_retransmissions ?s2 else fast_retransmissions ?s2 + 1),
            retransmission_history :=
              retransmission_history ?s2 @ [(now - t0, total_retransmissions ?s2 + 1)]\<rparr>)"
    by (rule send_packet_again [OF p]) (simp_all add: u st)
  also have "\<dots> = Inr (s\<lparr>ssthresh := m, cwnd := 1, state := slow_start,
            sent := sent s @ [p],
            unacked_packets := AList.update q (p, now, rc + 1) (unacked_packets s),
            total_retransmissions := total_retransmissions s + 1,
            timeout_retransmissions := timeout_retransmissions s + 1,
            retransmission_history :=
              retransmission_history s @ [(now - t0, total_retransmissions s + 1)]\<rparr>)"
    by simp
  finally show ?thesis unfolding m_def .
qed

lemma retransmit_all_result:
  assumes "start_time s = Some t0" and "distinct qs" and "distinct (map fst (unacked_packets s))"
    and "\<forall>q\<in>set qs. q \<in> fst ` set (unacked_packets s) \<and> segment_packet s q \<noteq> None"
  shows "\<exists>s'. retransmit_all s now qs = Inr s'
      \<and> unacked_packets s' =
          map (\<lambda>e. if fst e \<in> set qs then retransmitted s now e else e) (unacked_packets s)
      \<and> map Some (sent s') = map Some (sent s) @ map (segment_packet s) qs
      \<and> (qs = [] \<longrightarrow> s' = s)
      \<and> (qs \<noteq> [] \<longrightarrow> cwnd s' = 1 \<and> state s' = slow_start
            \<and> ssthresh s' = (if length qs = 1 then max (cwnd s div 2) 2 else 2))
      \<and> total_retransmissions s' = total_retransmissions s + int (length qs)
      \<and> timeout_retransmissions s' = timeout_retransmissions s + int (length qs)
      \<and> fast_retransmissions s' = fast_retransmissions s
      \<and> chunks s' = chunks s \<and> total_chunks s' = total_chunks s
      \<and> start_time s' = start_time s \<and> last_acked_seq s' = last_acked_seq s
      \<and> last_ack_received s' = last_ack_received s
      \<and> duplicate_ack_count s' = duplicate_ack_count s"
  using assms
proof (induction qs arbitrary: s)
  case Nil
  then show ?case by simp
next
  case (Cons q qs)
  from Cons.prems(4) obtain p where sp: "segment_packet s q = Some p"
    and mem: "q \<in> fst ` set (unacked_packets s)"
    by auto
  from mem obtain op ot rc where u: "map_of (unacked_packets s) q = Some (op, ot, rc)"
    by (metis (no_types, opaque_lifting) domD dom_map_of_conv_image_fst prod_cases3)
  define s1 where "s1 =
    s\<lparr>ssthresh := max (cwnd s div 2) 2, cwnd := 1, state := slow_start,
            sent := sent s @ [p],
            unacked_packets := AList.update q (p, now, rc + 1) (unacked_packets s),
            total_retransmissions := total_retransmissions s + 1,
            timeout_retransmissions := timeout_retransmissions s + 1,
            retransmission_history :=
              retransmission_history s @ [(now - t0, total_retransmissions s + 1)]\<rparr>"
  have step: "timeout_retransmit s now q = Inr s1"
    unfolding s1_def by (rule timeout_retransmit_known [OF sp u Cons.prems(1)])
  have f1: "chunks s1 = chunks s" "start_time s1 = Some t0" "cwnd s1 = 1"
    "ssthresh s1 = max (cwnd s div 2) 2" "state s1 = slow_start"
    "sent s1 = sent s @ [p]" "total_chunks s1 = total_chunks s"
    "total_retransmissions s1 = total_retransmissions s + 1"
    "timeout_retransmissions s1 = timeout_retransmissions s + 1"
    "fast_retransmissions s1 = fast_retransmissions s"
    "last_acked_seq s1 = last_acked_seq s" "last_ack_received s1 = last_ack_received s"
    "duplicate_ack_count s1 = duplicate_ack_count s"
    unfolding s1_def by (simp_all add: Cons.prems(1))
  have e: "(q, p, now, rc + 1) = retransmitted s now x"
    if "x \<in> set (unacked_packets s)" "fst x = q" for x
  proof -
    from that Cons.prems(3) have "map_of (unacked_packets s) q = Some (snd x)"
      by (metis map_of_is_SomeI prod.collapse)
    with u have "snd x = (op, ot, rc)" by simp
    with that(2) have "x = (q, op, ot, rc)" by (metis prod.collapse)
    then show ?thesis by (simp add: retransmitted_def sp)
  qed
  have u1: "unacked_packets s1 =
      map (\<lambda>e. if fst e = q then retransmitted s now e else e) (unacked_packets s)"
  proof -
    have "unacked_packets s1 = AList.update q (p, now, rc + 1) (unacked_packets s)"
      unfolding s1_def by simp
    also have "\<dots> = map (\<lambda>e. if fst e = q then (q, p, now, rc + 1) else e) (unacked_packets s)"
      by (rule update_distinct_map [OF Cons.prems(3) mem])
    also have "\<dots> = map (\<lambda>e. if fst e = q then retransmitted s now e else e) (unacked_packets s)"
      by (rule map_cong) (auto simp: e)
    finally show ?thesis .
  qed
  have k1: "map fst (unacked_packets s1) = map fst (unacked_packets s)"
    unfolding u1 by (simp add: comp_def if_distrib [of fst] cong: if_cong)
  from Cons.prems(2) have dq: "distinct qs" and nq: "q \<notin> set qs" by simp_all
  have d1: "distinct (map fst (unacked_packets s1))" unfolding k1 by (rule Cons.prems(3))
  have sp1: "segment_packet s1 = segment_packet s" by (rule segment_packet_cong) (rule f1)
  have rt1: "retransmitted s1 = retransmitted s" by (rule retransmitted_cong) (rule f1)
  have a1: "\<forall>q\<in>set qs. q \<in> fst ` set (unacked_packets s1) \<and> segment_packet s1 q \<noteq> None"
  proof -
    have "fst ` set (unacked_packets s1) = fst ` set (unacked_packets s)"
      using k1 by (metis set_map)
    with Cons.prems(4) show ?thesis unfolding sp1 by simp
  qed
  from Cons.IH [OF f1(2) dq d1 a1] obtain s' where
    r: "retransmit_all s1 now qs = Inr s'"
    and ru: "unacked_packets s' =
          map (\<lambda>e. if fst e \<in> set qs then retransmitted s1 now e else e) (unacked_packets s1)"
    and rs: "map Some (sent s') = map Some (sent s1) @ map (segment_packet s1) qs"
    and r0: "qs = [] \<longrightarrow> s' = s1"
    and rc: "qs \<noteq> [] \<longrightarrow> cwnd s' = 1 \<and> state s' = slow_start
            \<and> ssthresh s' = (if length qs = 1 then max (cwnd s1 div 2) 2 else 2)"
    and rf: "total_retransmissions s' = total_retransmissions s1 + int (length qs)"
      "timeout_retransmissions s' = timeout_retransmissions s1 + int (length qs)"
      "fast_retransmissions s' = fast_retransmissions s1"
      "chunks s' = chunks s1" "total_chunks s' = total_chunks s1"
      "start_time s' = start_time s1" "last_acked_seq s' = last_acked_seq s1"
      "last_ack_received s' = last_ack_received s1"
      "duplicate_ack_count s' = duplicate_ack_count s1"
    by blast
  have 1: "retransmit_all s now (q # qs) = Inr s'" by (simp add: step r)
  have 2: "unacked_packets s' =
          map (\<lambda>e. if fst e \<in> set (q # qs) then retransmitted s now e else e) (unacked_packets s)"
    unfolding ru u1 rt1 map_map using nq by (intro map_cong refl) auto
  have 3: "map Some (sent s') = map Some (sent s) @ map (segment_packet s) (q # qs)"
    unfolding rs sp1 f1 by (simp add: sp)
  have 4: "cwnd s' = 1 \<and> state s' = slow_start
            \<and> ssthresh s' = (if length (q # qs) = 1 then max (cwnd s div 2) 2 else 2)"
  proof (cases "qs = []")
    case True
    with r0 f1 show ?thesis by simp
  next
    case False
    with rc f1 show ?thesis by simp
  qed
  have 5: "total_retransmissions s' = total_retransmissions s + int (length (q # qs))"
      "timeout_retransmissions s' = timeout_retransmissions s + int (length (q # qs))"
      "fast_retransmissions s' = fast_retransmissions s"
      "chunks s' = chunks s" "total_chunks s' = total_chunks s"
      "start_time s' = start_time s" "last_acked_seq s' = last_acked_seq s"
      "last_ack_received s' = last_ack_received s"
      "duplicate_ack_count s' = duplicate_ack_count s"
    using rf f1 Cons.prems(1) by simp_all
  show ?case
    apply (rule exI [of _ s'])
    using 1 2 3 4 5 by simp
qed

lemma timed_out_packets_alt:
  "timed_out_packets s now
     = map fst (filter (\<lambda>e. TIMEOUT < now - fst (snd (snd e))) (unacked_packets s))"
  unfolding timed_out_packets_def
  by (rule arg_cong [where f = "map fst"], rule filter_cong) auto

lemma timed_out_iff:
  assumes "distinct (map fst (unacked_packets s))" "e \<in> set (unacked_packets s)"
  shows "fst e \<in> set (timed_out_packets s now) \<longleftrightarrow> TIMEOUT < now - fst (snd (snd e))"
proof
  assume "fst e \<in> set (timed_out_packets s now)"
  then obtain e' where e': "e' \<in> set (unacked_packets s)" "TIMEOUT < now - fst (snd (snd e'))"
    "fst e' = fst e"
    unfolding timed_out_packets_alt by auto
  from assms(1) e'(1) assms(2) e'(3) have "e' = e"
    by (metis eq_key_imp_eq_value prod.collapse)
  with e'(2) show "TIMEOUT < now - fst (snd (snd e))" by simp
next
  assume "TIMEOUT < now - fst (snd (snd e))"
  with assms(2) show "fst e \<in> set (timed_out_packets s now)"
    unfolding timed_out_packets_alt by auto
qed

text \<open>
  C3.  A poll at time \<open>now\<close> treats an entry of \<open>unacked_packets\<close> as timed out
  exactly when \<open>now\<close> minus its send time exceeds 0.5.  Every such entry is
  re-sent as the packet of its segment's payload in the table, with its send time set
  to \<open>now\<close> and its retransmit count incremented; the other entries stay.  Each
  retransmission sets \<open>ssthresh\<close> to \<open>max (cwnd div 2) 2\<close>, \<open>cwnd\<close> to 1 and the phase
  to slow start, so after one the threshold is that of the old window and after
  several it is 2.
\<close>

theorem check_timeouts_retransmits:
  assumes "start_time s = Some t0"
    and "distinct (map fst (unacked_packets s))"
    and "\<forall>q\<in>fst ` set (unacked_packets s). segment_packet s q \<noteq> None"
  shows "\<exists>s'. check_timeouts s now = Inr s'
     \<and> TIMEOUT = 1 / 2
     \<and> (\<forall>e\<in>set (unacked_packets s).
           fst e \<in> set (timed_out_packets s now) \<longleftrightarrow> TIMEOUT < now - fst (snd (snd e)))
     \<and> unacked_packets s' =
         map (\<lambda>e. if TIMEOUT < now - fst (snd (snd e)) then retransmitted s now e else e)
           (unacked_packets s)
     \<and> map Some (sent s') = map Some (sent s) @ map (segment_packet s) (timed_out_packets s now)
     \<and> (timed_out_packets s now = [] \<longrightarrow> s' = s)
     \<and> (timed_out_packets s now \<noteq> [] \<longrightarrow>
           cwnd s' = 1 \<and> state s' = slow_start
           \<and> ssthresh s' = (if length (timed_out_packets s now) = 1
                            then max (cwnd s div 2) 2 else 2))
     \<and> total_retransmissions s'
         = total_retransmissions s + int (length (timed_out_packets s now))
     \<and> timeout_retransmissions s'
         = timeout_retransmissions s + int (length (timed_out_packets s now))
     \<and> fast_retransmissions s' = fast_retransmissions s"
proof -
  let ?qs = "timed_out_packets s now"
  have d: "distinct ?qs"
    unfolding timed_out_packets_alt using assms(2) by (rule distinct_map_filter)
  have sub: "set ?qs \<subseteq> fst ` set (unacked_packets s)"
    unfolding timed_out_packets_alt by auto
  with assms(3)
  have a: "\<forall>q\<in>set ?qs. q \<in> fst ` set (unacked_packets s) \<and> segment_packet s q \<noteq> None"
    by blast
  from retransmit_all_result [OF assms(1) d assms(2) a, of now] obtain s' where
    r: "retransmit_all s now ?qs = Inr s'"
    and u: "unacked_packets s' =
          map (\<lambda>e. if fst e \<in> set ?qs then retransmitted s now e else e) (unacked_packets s)"
    and rest: "map Some (sent s') = map Some (sent s) @ map (segment_packet s) ?qs"
      "?qs = [] \<longrightarrow> s' = s"
      "?qs \<noteq> [] \<longrightarrow> cwnd s' = 1 \<and> state s' = slow_start
            \<and> ssthresh s' = (if length ?qs = 1 then max (cwnd s div 2) 2 else 2)"
      "total_retransmissions s' = total_retransmissions s + int (length ?qs)"
      "timeout_retransmissions s' = timeout_retransmissions s + int (length ?qs)"
      "fast_retransmissions s' = fast_retransmissions s"
    by blast
  have 1: "check_timeouts s now = Inr s'" by (simp add: check_timeouts_def r)
  have 2: "\<forall>e\<in>set (unacked_packets s).
           fst e \<in> set ?qs \<longleftrightarrow> TIMEOUT < now - fst (snd (snd e))"
    using timed_out_iff [OF assms(2)] by blast
  have 3: "unacked_packets s' =
         map (\<lambda>e. if TIMEOUT < now - fst (snd (snd e)) then retransmitted s now e else e)
           (unacked_packets s)"
    unfolding u using 2 by (intro map_cong refl) simp
  have 4: "TIMEOUT = 1 / 2" by (simp add: TIMEOUT_def)
  show ?thesis
    apply (rule exI [of _ s'])
    using 1 2 3 4 rest by blast
qed

section \<open>The sender: invariants of a transfer\<close>

lemma sender_invD:
  assumes "sender_inv s i"
  shows "1 \<le> cwnd s" "2 \<le> ssthresh s"
    "total_retransmissions s = timeout_retransmissions s + fast_retransmissions s"
    "start_time s \<noteq> None" "contiguous 0 (chunks s)" "total_chunks s = length (chunks s)"
    "i \<le> total_chunks s" "distinct (map fst (unacked_packets s))"
    "\<And>q. q \<in> fst ` set (unacked_packets s) \<Longrightarrow> segment_packet s q \<noteq> None"
    "last_acked_seq s + 1 = max (last_ack_received s) 0"
  using assms unfolding sender_inv_def by blast+

lemma sender_invI:
  assumes "1 \<le> cwnd s" "2 \<le> ssthresh s"
    "total_retransmissions s = timeout_retransmissions s + fast_retransmissions s"
    "start_time s \<noteq> None" "contiguous 0 (chunks s)" "total_chunks s = length (chunks s)"
    "i \<le> total_chunks s" "distinct (map fst (unacked_packets s))"
    "\<And>q. q \<in> fst ` set (unacked_packets s) \<Longrightarrow> segment_packet s q \<noteq> None"
    "last_acked_seq s + 1 = max (last_ack_received s) 0"
  shows "sender_inv s i"
  using assms unfolding sender_inv_def by blast

lemma flight_invD:
  assumes "flight_inv s i"
  shows "last_acked_seq s + 1 \<le> sent_end s i"
    "\<And>q. q \<in> fst ` set (unacked_packets s) \<Longrightarrow>
       \<exists>d. map_of (chunks s) q = Some d \<and> last_acked_seq s + 1 < q + int (length d)"
  using assms unfolding flight_inv_def by blast+

lemma flight_invI:
  assumes "last_acked_seq s + 1 \<le> sent_end s i"
    "\<And>q. q \<in> fst ` set (unacked_packets s) \<Longrightarrow>
       \<exists>d. map_of (chunks s) q = Some d \<and> last_acked_seq s + 1 < q + int (length d)"
  shows "flight_inv s i"
  using assms unfolding flight_inv_def by blast

lemma contiguous_map_of:
  assumes "contiguous off cs" "(q, v) \<in> set cs"
  shows "map_of cs q = Some v"
proof -
  from assms(2) have "q \<in> fst ` set cs" by force
  then obtain v' where v': "map_of cs q = Some v'"
    by (metis domD dom_map_of_conv_image_fst)
  then have "(q, v') \<in> set cs" by (rule map_of_SomeD)
  from contiguous_unique [OF assms(1) this assms(2)] v' show ?thesis by simp
qed

lemma contiguous_nth:
  assumes "contiguous off cs" "i < length cs"
  shows "fst (cs ! i) = off + total_len (map snd (take i cs))"
    and "snd (cs ! i) \<noteq> []"
    and "map_of cs (fst (cs ! i)) = Some (snd (cs ! i))"
proof -
  have cs: "cs = take i cs @ cs ! i # drop (Suc i) cs"
    using assms(2) by (rule id_take_nth_drop)
  from assms(1) have "contiguous (off + total_len (map snd (take i cs))) (cs ! i # drop (Suc i) cs)"
    by (subst (asm) cs) (simp add: contiguous_append)
  then show "fst (cs ! i) = off + total_len (map snd (take i cs))" "snd (cs ! i) \<noteq> []"
    by (cases "cs ! i"; simp)+
  have "(fst (cs ! i), snd (cs ! i)) \<in> set cs" using assms(2) by simp
  from contiguous_map_of [OF assms(1) this]
  show "map_of cs (fst (cs ! i)) = Some (snd (cs ! i))" .
qed

lemma contiguous_payload:
  assumes "contiguous off cs" "map_of cs q = Some d"
  shows "d \<noteq> []"
  using contiguous_mem [OF assms(1) map_of_SomeD [OF assms(2)]] by simp

lemma transfer_start_inv: "sender_inv (transfer_start file_data t0) 0"
  by (simp add: sender_inv_def transfer_start_def client_init_def contiguous_read_file
      INITIAL_CWND_def INITIAL_SSTHRESH_def)

lemma transfer_start_flight: "flight_inv (transfer_start file_data t0) 0"
  by (simp add: flight_inv_def transfer_start_def client_init_def sent_end_def)

lemma sent_end_Suc:
  assumes "contiguous 0 (chunks s)" "i < length (chunks s)"
  shows "sent_end s (Suc i) = sent_end s i + int (length (snd (chunks s ! i)))"
    and "fst (chunks s ! i) = sent_end s i"
  using contiguous_nth(1) [OF assms] by (simp_all add: sent_end_def take_Suc_conv_app_nth [OF assms(2)])

lemma sent_end_cong: "chunks s' = chunks s \<Longrightarrow> sent_end s' i = sent_end s i"
  by (simp add: sent_end_def)

text \<open>The pump's send of the next chunk.\<close>

lemma pump_preserves:
  assumes inv: "sender_inv s i" and lt: "i < total_chunks s"
    and send: "send_packet s now (fst (chunks s ! i)) (snd (chunks s ! i)) False = Inr s'"
  shows "sender_inv s' (i + 1)" and "flight_inv s i \<Longrightarrow> flight_inv s' (i + 1)"
proof -
  let ?q = "fst (chunks s ! i)" and ?d = "snd (chunks s ! i)"
  note D = sender_invD [OF inv]
  from lt D(6) have li: "i < length (chunks s)" by simp
  note nth = contiguous_nth [OF D(5) li]
  note eff = send_packet_effect [OF send]
  from eff(1) obtain p n where p: "create_packet ?q ?d = Inr p"
    and u: "unacked_packets s' = AList.update ?q (p, now, n) (unacked_packets s)"
    by blast
  have ch: "chunks s' = chunks s" by (rule eff(2))
  have sp: "segment_packet s' = segment_packet s" using ch by (rule segment_packet_cong)
  have spq: "segment_packet s ?q = Some p"
    unfolding segment_packet_Some using nth(3) p by blast
  have keys: "fst ` set (unacked_packets s') = {?q} \<union> fst ` set (unacked_packets s)"
    unfolding u by (rule AList.dom_update)
  have cnt: "total_retransmissions s' = timeout_retransmissions s' + fast_retransmissions s'"
  proof (cases "map_of (unacked_packets s) ?q")
    case None
    with eff(11) D(3) show ?thesis by simp
  next
    case (Some e)
    with eff(13) D(3) show ?thesis by simp
  qed
  have d': "distinct (map fst (unacked_packets s'))"
    unfolding u using D(8) by (rule AList.distinct_update)
  show "sender_inv s' (i + 1)"
  proof (rule sender_invI)
    show "1 \<le> cwnd s'" "2 \<le> ssthresh s'" using D(1,2) eff(4,5) by simp_all
    show "total_retransmissions s' = timeout_retransmissions s' + fast_retransmissions s'"
      by (rule cnt)
    show "start_time s' \<noteq> None" using D(4) eff(10) by simp
    show "contiguous 0 (chunks s')" using D(5) ch by simp
    show "total_chunks s' = length (chunks s')" using D(6) ch eff(3) by simp
    show "i + 1 \<le> total_chunks s'" using lt eff(3) by simp
    show "distinct (map fst (unacked_packets s'))" by (rule d')
    show "segment_packet s' q \<noteq> None" if "q \<in> fst ` set (unacked_packets s')" for q
      using that D(9) spq unfolding keys sp by auto
    show "last_acked_seq s' + 1 = max (last_ack_received s') 0" using D(10) eff(7,8) by simp
  qed
  assume fl: "flight_inv s i"
  note F = flight_invD [OF fl]
  have e1: "sent_end s' (i + 1) = sent_end s i + int (length ?d)"
    using sent_end_Suc(1) [OF D(5) li] sent_end_cong [OF ch] by simp
  have e2: "1 \<le> int (length ?d)" using nth(2) by (rule nonempty_len)
  have e3: "?q = sent_end s i" by (rule sent_end_Suc(2) [OF D(5) li])
  show "flight_inv s' (i + 1)"
  proof (rule flight_invI)
    show "last_acked_seq s' + 1 \<le> sent_end s' (i + 1)"
      using F(1) e1 e2 eff(7) by linarith
    show "\<exists>d. map_of (chunks s') q = Some d \<and> last_acked_seq s' + 1 < q + int (length d)"
      if "q \<in> fst ` set (unacked_packets s')" for q
    proof (cases "q = ?q")
      case True
      have "last_acked_seq s' + 1 < ?q + int (length ?d)"
        using F(1) e2 e3 eff(7) by linarith
      with nth(3) True show ?thesis unfolding ch by blast
    next
      case False
      with that have "q \<in> fst ` set (unacked_packets s)" unfolding keys by simp
      from F(2) [OF this] show ?thesis unfolding ch eff(7) .
    qed
  qed
qed

text \<open>A duplicate ACK.\<close>

lemma fast_retransmit_preserves:
  assumes inv: "sender_inv s i" and a: "0 \<le> q" "q = last_ack_received s"
    and r: "fast_retransmit s now q = Inr s'"
  shows "sender_inv s' i" and "flight_inv s i \<Longrightarrow> flight_inv s' i"
proof -
  note D = sender_invD [OF inv]
  from fast_retransmit_Inr [OF r]
  consider (none) "s' = s"
    | (some) d p t0 where "map_of (chunks s) q = Some d" "create_packet q d = Inr p"
        "start_time s = Some t0"
    by blast
  then have "sender_inv s' i \<and> (flight_inv s i \<longrightarrow> flight_inv s' i)"
  proof cases
    case none
    with inv show ?thesis by simp
  next
    case some
    define n where "n = (case map_of (unacked_packets s) q of
                           None \<Rightarrow> 1 | Some (op, ot, rc) \<Rightarrow> rc + 1)"
    define m where "m = max (cwnd s div 2) 2"
    have m2: "2 \<le> m" unfolding m_def by simp
    from r have s': "s' = s\<lparr>sent := sent s @ [p],
            unacked_packets := AList.update q (p, now, n) (unacked_packets s),
            total_retransmissions := total_retransmissions s + 1,
            fast_retransmissions := fast_retransmissions s + 1,
            retransmission_history :=
              retransmission_history s @ [(now - t0, total_retransmissions s + 1)],
            ssthresh := m, cwnd := m + 3, state := congestion_avoidance,
            duplicate_ack_count := 0\<rparr>"
      unfolding fast_retransmit_some [OF some] n_def m_def by simp
    have f: "chunks s' = chunks s" "total_chunks s' = total_chunks s" "cwnd s' = m + 3"
      "ssthresh s' = m" "start_time s' = start_time s"
      "last_acked_seq s' = last_acked_seq s" "last_ack_received s' = last_ack_received s"
      "unacked_packets s' = AList.update q (p, now, n) (unacked_packets s)"
      "total_retransmissions s' = total_retransmissions s + 1"
      "fast_retransmissions s' = fast_retransmissions s + 1"
      "timeout_retransmissions s' = timeout_retransmissions s"
      unfolding s' by simp_all
    have sp: "segment_packet s' = segment_packet s" using f(1) by (rule segment_packet_cong)
    have spq: "segment_packet s q = Some p"
      unfolding segment_packet_Some using some by blast
    have keys: "fst ` set (unacked_packets s') = {q} \<union> fst ` set (unacked_packets s)"
      unfolding f(8) by (rule AList.dom_update)
    have 1: "sender_inv s' i"
    proof (rule sender_invI)
      show "1 \<le> cwnd s'" "2 \<le> ssthresh s'" using m2 f(3,4) by simp_all
      show "total_retransmissions s' = timeout_retransmissions s' + fast_retransmissions s'"
        using D(3) f(9,10,11) by simp
      show "start_time s' \<noteq> None" using D(4) f(5) by simp
      show "contiguous 0 (chunks s')" using D(5) f(1) by simp
      show "total_chunks s' = length (chunks s')" using D(6) f(1,2) by simp
      show "i \<le> total_chunks s'" using D(7) f(2) by simp
      show "distinct (map fst (unacked_packets s'))"
        unfolding f(8) using D(8) by (rule AList.distinct_update)
      show "segment_packet s' k \<noteq> None" if "k \<in> fst ` set (unacked_packets s')" for k
        using that D(9) spq unfolding keys sp by auto
      show "last_acked_seq s' + 1 = max (last_ack_received s') 0" using D(10) f(6,7) by simp
    qed
    have 2: "flight_inv s' i" if fl: "flight_inv s i"
    proof (rule flight_invI)
      note F = flight_invD [OF fl]
      show "last_acked_seq s' + 1 \<le> sent_end s' i"
        using F(1) f(6) sent_end_cong [OF f(1)] by simp
      show "\<exists>d. map_of (chunks s') k = Some d \<and> last_acked_seq s' + 1 < k + int (length d)"
        if "k \<in> fst ` set (unacked_packets s')" for k
      proof (cases "k = q")
        case True
        have "1 \<le> int (length d)"
          using contiguous_payload [OF D(5) some(1)] by (rule nonempty_len)
        moreover have "last_acked_seq s + 1 = q" using D(10) a by simp
        ultimately have "last_acked_seq s' + 1 < q + int (length d)" using f(6) by linarith
        with some(1) True show ?thesis unfolding f(1) by blast
      next
        case False
        with that have "k \<in> fst ` set (unacked_packets s)" unfolding keys by simp
        from F(2) [OF this] show ?thesis unfolding f(1,6) .
      qed
    qed
    from 1 2 show ?thesis by blast
  qed
  then show "sender_inv s' i" and "flight_inv s i \<Longrightarrow> flight_inv s' i" by blast+
qed

lemma sender_inv_cong:
  assumes "cwnd s' = cwnd s" "ssthresh s' = ssthresh s"
    "total_retransmissions s' = total_retransmissions s"
    "timeout_retransmissions s' = timeout_retransmissions s"
    "fast_retransmissions s' = fast_retransmissions s"
    "start_time s' = start_time s" "chunks s' = chunks s" "total_chunks s' = total_chunks s"
    "unacked_packets s' = unacked_packets s" "last_acked_seq s' = last_acked_seq s"
    "last_ack_received s' = last_ack_received s"
  shows "sender_inv s' i = sender_inv s i"
  unfolding sender_inv_def segment_packet_cong [OF assms(7)] assms ..

lemma flight_inv_cong:
  assumes "chunks s' = chunks s" "unacked_packets s' = unacked_packets s"
    "last_acked_seq s' = last_acked_seq s"
  shows "flight_inv s' i = flight_inv s i"
  unfolding flight_inv_def sent_end_cong [OF assms(1)] assms ..

lemma duplicate_ack_preserves:
  assumes inv: "sender_inv s i" and a: "0 \<le> ack_num" "ack_num = last_ack_received s"
    and r: "handle_ack s now ack_num = Inr s'"
  shows "sender_inv s' i" and "flight_inv s i \<Longrightarrow> flight_inv s' i"
proof -
  let ?s1 = "s\<lparr>duplicate_ack_count := duplicate_ack_count s + 1\<rparr>"
  have i1: "sender_inv ?s1 i" using inv by (subst sender_inv_cong [of _ s]) simp_all
  have f1: "flight_inv ?s1 i = flight_inv s i" by (rule flight_inv_cong) simp_all
  have "sender_inv s' i \<and> (flight_inv s i \<longrightarrow> flight_inv s' i)"
  proof (cases "duplicate_ack_count s + 1 = 3")
    case True
    with r have fr: "fast_retransmit ?s1 now ack_num = Inr s'"
      by (simp add: handle_ack_duplicate [OF a(2)])
    have a1: "ack_num = last_ack_received ?s1" using a(2) by simp
    from fast_retransmit_preserves [OF i1 a(1) a1 fr] f1 show ?thesis by blast
  next
    case False
    with r have "s' = ?s1" by (simp add: handle_ack_duplicate [OF a(2)])
    with i1 f1 show ?thesis by simp
  qed
  then show "sender_inv s' i" and "flight_inv s i \<Longrightarrow> flight_inv s' i" by blast+
qed

text \<open>A new cumulative ACK.\<close>

lemma new_ack_preserves:
  assumes inv: "sender_inv s i" and a: "0 \<le> ack_num" "last_ack_received s < ack_num"
    and r: "handle_ack s now ack_num = Inr s'"
  shows "sender_inv s' i"
    and "flight_inv s i \<Longrightarrow> ack_num \<le> sent_end s i \<Longrightarrow> flight_inv s' i"
proof -
  note D = sender_invD [OF inv]
  from D(4) obtain t0 where st: "start_time s = Some t0" by blast
  from D(1) have nz: "state s = congestion_avoidance \<longrightarrow> cwnd s \<noteq> 0" by simp
  let ?K = "int (length (acked_packets s ack_num))"
  from new_ack_result [OF st nz, where ack_num = ack_num and now = now] r
    handle_ack_new [OF a(2), of now]
  have u: "unacked_packets s' = filter (\<lambda>e. \<not> covers s ack_num (fst e)) (unacked_packets s)"
    and f: "last_ack_received s' = ack_num"
      "last_acked_seq s' = max (last_acked_seq s) (ack_num - 1)"
      "ssthresh s' = ssthresh s" "chunks s' = chunks s" "total_chunks s' = total_chunks s"
      "start_time s' = start_time s"
      "total_retransmissions s' = total_retransmissions s"
      "timeout_retransmissions s' = timeout_retransmissions s"
      "fast_retransmissions s' = fast_retransmissions s"
    and c: "cwnd s' = (if state s = slow_start then cwnd s + ?K
                   else max 1 (py_int (real_of_int (cwnd s) + real_of_int ?K / real_of_int (cwnd s))))"
    by auto
  have sp: "segment_packet s' = segment_packet s" using f(4) by (rule segment_packet_cong)
  have keys: "fst ` set (unacked_packets s') \<subseteq> fst ` set (unacked_packets s)"
    unfolding u by auto
  have las: "last_acked_seq s' + 1 = ack_num"
    using D(10) a unfolding f(2) by simp
  show "sender_inv s' i"
  proof (rule sender_invI)
    show "1 \<le> cwnd s'" using D(1) unfolding c by simp
    show "2 \<le> ssthresh s'" using D(2) f(3) by simp
    show "total_retransmissions s' = timeout_retransmissions s' + fast_retransmissions s'"
      using D(3) f(7,8,9) by simp
    show "start_time s' \<noteq> None" using D(4) f(6) by simp
    show "contiguous 0 (chunks s')" using D(5) f(4) by simp
    show "total_chunks s' = length (chunks s')" using D(6) f(4,5) by simp
    show "i \<le> total_chunks s'" using D(7) f(5) by simp
    show "distinct (map fst (unacked_packets s'))"
      unfolding u using D(8) by (rule distinct_map_filter)
    show "segment_packet s' k \<noteq> None" if "k \<in> fst ` set (unacked_packets s')" for k
      using that D(9) keys unfolding sp by blast
    show "last_acked_seq s' + 1 = max (last_ack_received s') 0" using las a(1) f(1) by simp
  qed
  assume fl: "flight_inv s i" and le: "ack_num \<le> sent_end s i"
  note F = flight_invD [OF fl]
  show "flight_inv s' i"
  proof (rule flight_invI)
    show "last_acked_seq s' + 1 \<le> sent_end s' i"
      using las le sent_end_cong [OF f(4)] by simp
    show "\<exists>d. map_of (chunks s') k = Some d \<and> last_acked_seq s' + 1 < k + int (length d)"
      if "k \<in> fst ` set (unacked_packets s')" for k
    proof -
      from that have k: "k \<in> fst ` set (unacked_packets s)" and nc: "\<not> covers s ack_num k"
        unfolding u by auto
      from F(2) [OF k] obtain d where d: "map_of (chunks s) k = Some d" by blast
      have "d \<noteq> []" using contiguous_payload [OF D(5) d] .
      with nc d have "ack_num < k + int (length d)"
        by (simp add: covers_def packet_size_of_def)
      with d show ?thesis unfolding f(4) las by blast
    qed
  qed
qed

text \<open>A poll for timeouts.\<close>

lemma poll_preserves:
  assumes inv: "sender_inv s i" and r: "check_timeouts s now = Inr s'"
  shows "sender_inv s' i" and "flight_inv s i \<Longrightarrow> flight_inv s' i"
proof -
  note D = sender_invD [OF inv]
  from D(4) obtain t0 where st: "start_time s = Some t0" by blast
  let ?qs = "timed_out_packets s now"
  have d: "distinct ?qs"
    unfolding timed_out_packets_alt using D(8) by (rule distinct_map_filter)
  have "set ?qs \<subseteq> fst ` set (unacked_packets s)"
    unfolding timed_out_packets_alt by auto
  with D(9)
  have a: "\<forall>q\<in>set ?qs. q \<in> fst ` set (unacked_packets s) \<and> segment_packet s q \<noteq> None"
    by blast
  from retransmit_all_result [OF st d D(8) a, of now] r
  have u: "unacked_packets s' =
          map (\<lambda>e. if fst e \<in> set ?qs then retransmitted s now e else e) (unacked_packets s)"
    and w: "?qs = [] \<longrightarrow> s' = s"
      "?qs \<noteq> [] \<longrightarrow> cwnd s' = 1 \<and> state s' = slow_start
            \<and> ssthresh s' = (if length ?qs = 1 then max (cwnd s div 2) 2 else 2)"
    and f: "total_retransmissions s' = total_retransmissions s + int (length ?qs)"
      "timeout_retransmissions s' = timeout_retransmissions s + int (length ?qs)"
      "fast_retransmissions s' = fast_retransmissions s"
      "chunks s' = chunks s" "total_chunks s' = total_chunks s"
      "start_time s' = start_time s" "last_acked_seq s' = last_acked_seq s"
      "last_ack_received s' = last_ack_received s"
    unfolding check_timeouts_def by auto
  have k: "map fst (unacked_packets s') = map fst (unacked_packets s)"
    unfolding u by (simp add: comp_def if_distrib [of fst] cong: if_cong)
  then have keys: "fst ` set (unacked_packets s') = fst ` set (unacked_packets s)"
    by (metis set_map)
  have sp: "segment_packet s' = segment_packet s" using f(4) by (rule segment_packet_cong)
  have win: "1 \<le> cwnd s' \<and> 2 \<le> ssthresh s'"
  proof (cases "?qs = []")
    case True
    with w D(1,2) show ?thesis by simp
  next
    case False
    with w show ?thesis by simp
  qed
  show "sender_inv s' i"
  proof (rule sender_invI)
    show "1 \<le> cwnd s'" "2 \<le> ssthresh s'" using win by simp_all
    show "total_retransmissions s' = timeout_retransmissions s' + fast_retransmissions s'"
      using D(3) f(1,2,3) by simp
    show "start_time s' \<noteq> None" using D(4) f(6) by simp
    show "contiguous 0 (chunks s')" using D(5) f(4) by simp
    show "total_chunks s' = length (chunks s')" using D(6) f(4,5) by simp
    show "i \<le> total_chunks s'" using D(7) f(5) by simp
    show "distinct (map fst (unacked_packets s'))" unfolding k by (rule D(8))
    show "segment_packet s' q \<noteq> None" if "q \<in> fst ` set (unacked_packets s')" for q
      using that D(9) unfolding keys sp by blast
    show "last_acked_seq s' + 1 = max (last_ack_received s') 0" using D(10) f(7,8) by simp
  qed
  assume fl: "flight_inv s i"
  note F = flight_invD [OF fl]
  show "flight_inv s' i"
  proof (rule flight_invI)
    show "last_acked_seq s' + 1 \<le> sent_end s' i"
      using F(1) f(7) sent_end_cong [OF f(4)] by simp
    show "\<exists>d. map_of (chunks s') q = Some d \<and> last_acked_seq s' + 1 < q + int (length d)"
      if "q \<in> fst ` set (unacked_packets s')" for q
      using that F(2) unfolding keys f(4,7) by blast
  qed
qed

lemma ack_preserves:
  assumes inv: "sender_inv s i" and a: "0 \<le> ack_num"
    and r: "handle_ack s now ack_num = Inr s'"
  shows "sender_inv s' i"
    and "flight_inv s i \<Longrightarrow> ack_num \<le> sent_end s i \<Longrightarrow> flight_inv s' i"
proof -
  consider (dup) "ack_num = last_ack_received s" | (new) "last_ack_received s < ack_num"
    | (stale) "ack_num < last_ack_received s"
    by linarith
  then have "sender_inv s' i
      \<and> (flight_inv s i \<longrightarrow> ack_num \<le> sent_end s i \<longrightarrow> flight_inv s' i)"
  proof cases
    case dup
    from duplicate_ack_preserves [OF inv a dup r] show ?thesis by blast
  next
    case new
    from new_ack_preserves [OF inv a new r] show ?thesis by blast
  next
    case stale
    with r have "s' = s" by (simp add: handle_ack_stale)
    with inv show ?thesis by simp
  qed
  then show "sender_inv s' i"
    and "flight_inv s i \<Longrightarrow> ack_num \<le> sent_end s i \<Longrightarrow> flight_inv s' i"
    by blast+
qed

lemma sender_reach_inv: "sender_reach A s i \<Longrightarrow> sender_inv s i"
proof (induction rule: sender_reach.induct)
  case (start file_data t0)
  show ?case by (rule transfer_start_inv)
next
  case (pump s chunk_index now s')
  from pump_preserves(1) [OF pump.IH pump.hyps(3,4)] show ?case .
next
  case (ack s chunk_index ack_num now s')
  from ack_preserves(1) [OF ack.IH ack.hyps(2) ack.hyps(5)] show ?case .
next
  case (poll s chunk_index now s')
  from poll_preserves(1) [OF poll.IH poll.hyps(2)] show ?case .
qed

lemma sender_reach_flight: "sender_reach ack_of_sent s i \<Longrightarrow> flight_inv s i"
proof (induction rule: sender_reach.induct)
  case (start file_data t0)
  show ?case by (rule transfer_start_flight)
next
  case (pump s chunk_index now s')
  from pump_preserves(2) [OF sender_reach_inv [OF pump.hyps(1)] pump.hyps(3,4) pump.IH]
  show ?case .
next
  case (ack s chunk_index ack_num now s')
  from ack.hyps(4) have "ack_num \<le> sent_end s chunk_index"
    by (simp add: ack_of_sent_def sent_end_def)
  from ack_preserves(2) [OF sender_reach_inv [OF ack.hyps(1)] ack.hyps(2) ack.hyps(5) ack.IH this]
  show ?case .
next
  case (poll s chunk_index now s')
  from poll_preserves(2) [OF sender_reach_inv [OF poll.hyps(1)] poll.hyps(2) poll.IH]
  show ?case .
qed

text \<open>In a state that satisfies the invariant, ACK handling and the timeout poll
  return.\<close>

lemma handle_ack_returns:
  assumes inv: "sender_inv s i" and a: "0 \<le> ack_num" "ack_num < 2 ^ 32"
  shows "\<exists>s'. handle_ack s now ack_num = Inr s'"
proof -
  note D = sender_invD [OF inv]
  from D(4) obtain t0 where st: "start_time s = Some t0" by blast
  consider (dup) "ack_num = last_ack_received s" | (new) "last_ack_received s < ack_num"
    | (stale) "ack_num < last_ack_received s"
    by linarith
  then show ?thesis
  proof cases
    case dup
    let ?s1 = "s\<lparr>duplicate_ack_count := duplicate_ack_count s + 1\<rparr>"
    have "\<exists>s'. fast_retransmit ?s1 now ack_num = Inr s'"
    proof (cases "map_of (chunks ?s1) ack_num")
      case None
      then show ?thesis by (simp add: fast_retransmit_none)
    next
      case (Some d)
      from a have "0 \<le> ack_num" "ack_num < 4294967296" unfolding pows by simp_all
      from create_packet_ok [OF this] obtain p where p: "create_packet ack_num d = Inr p" ..
      have "start_time ?s1 = Some t0" using st by simp
      from fast_retransmit_some [OF Some p this] show ?thesis by blast
    qed
    then obtain s' where fr: "fast_retransmit ?s1 now ack_num = Inr s'" ..
    show ?thesis
    proof (cases "duplicate_ack_count s + 1 = 3")
      case True
      have "handle_ack s now ack_num = fast_retransmit ?s1 now ack_num"
        unfolding handle_ack_duplicate [OF dup] using True by (rule if_P)
      then have "handle_ack s now ack_num = Inr s'" unfolding fr .
      then show ?thesis ..
    next
      case False
      have "handle_ack s now ack_num = Inr ?s1"
        unfolding handle_ack_duplicate [OF dup] using False by (rule if_not_P)
      then show ?thesis ..
    qed
  next
    case new
    from D(1) have nz: "state s = congestion_avoidance \<longrightarrow> cwnd s \<noteq> 0" by simp
    from new_ack_result [OF st nz, where ack_num = ack_num and now = now]
    show ?thesis unfolding handle_ack_new [OF new] by blast
  next
    case stale
    then show ?thesis by (simp add: handle_ack_stale)
  qed
qed

lemma check_timeouts_returns:
  assumes inv: "sender_inv s i"
  shows "\<exists>s'. check_timeouts s now = Inr s'"
proof -
  note D = sender_invD [OF inv]
  from D(4) obtain t0 where st: "start_time s = Some t0" by blast
  let ?qs = "timed_out_packets s now"
  have d: "distinct ?qs"
    unfolding timed_out_packets_alt using D(8) by (rule distinct_map_filter)
  have "set ?qs \<subseteq> fst ` set (unacked_packets s)"
    unfolding timed_out_packets_alt by auto
  with D(9)
  have a: "\<forall>q\<in>set ?qs. q \<in> fst ` set (unacked_packets s) \<and> segment_packet s q \<noteq> None"
    by blast
  from retransmit_all_result [OF st d D(8) a, of now]
  show ?thesis unfolding check_timeouts_def by blast
qed

text \<open>
  C7.  In every state a transfer reaches, whatever ACK values arrive, \<open>cwnd\<close> is at
  least 1 and \<open>ssthresh\<close> at least 2; ACK handling (with its fast retransmit) and the
  timeout poll return in such a state, and the bounds hold in the state they return.
\<close>

theorem cwnd_and_ssthresh_bounds:
  assumes "sender_reach any_ack s i"
  shows "1 \<le> cwnd s \<and> 2 \<le> ssthresh s
     \<and> (\<forall>now ack_num. 0 \<le> ack_num \<and> ack_num < 2 ^ 32 \<longrightarrow>
           (\<exists>s'. handle_ack s now ack_num = Inr s' \<and> 1 \<le> cwnd s' \<and> 2 \<le> ssthresh s'))
     \<and> (\<forall>now. \<exists>s'. check_timeouts s now = Inr s' \<and> 1 \<le> cwnd s' \<and> 2 \<le> ssthresh s')"
proof -
  note inv = sender_reach_inv [OF assms]
  have 1: "1 \<le> cwnd s \<and> 2 \<le> ssthresh s" using sender_invD(1,2) [OF inv] by simp
  have 2: "\<exists>s'. handle_ack s now ack_num = Inr s' \<and> 1 \<le> cwnd s' \<and> 2 \<le> ssthresh s'"
    if "0 \<le> ack_num \<and> ack_num < 2 ^ 32" for now ack_num
  proof -
    from that have a: "0 \<le> ack_num" "ack_num < 2 ^ 32" by blast+
    from handle_ack_returns [OF inv a] obtain s' where r: "handle_ack s now ack_num = Inr s'" ..
    from sender_invD(1,2) [OF ack_preserves(1) [OF inv a(1) r]] r show ?thesis by blast
  qed
  have 3: "\<exists>s'. check_timeouts s now = Inr s' \<and> 1 \<le> cwnd s' \<and> 2 \<le> ssthresh s'" for now
  proof -
    from check_timeouts_returns [OF inv] obtain s' where r: "check_timeouts s now = Inr s'" ..
    from sender_invD(1,2) [OF poll_preserves(1) [OF inv r]] r show ?thesis by blast
  qed
  from 1 2 3 show ?thesis by blast
qed


text \<open>
  C5, as amended.  In every state of a transfer in which each ACK received
  acknowledges only bytes of chunks the pump has already sent, the in-flight count of
  \<open>can_send_more\<close> is the number of entries of \<open>unacked_packets\<close>, so
  \<open>can_send_more\<close> holds exactly when that number is below \<open>cwnd\<close>.
\<close>

theorem in_flight_is_unacked:
  assumes "sender_reach ack_of_sent s i"
  shows "in_flight_count s = int (length (unacked_packets s))
     \<and> (can_send_more s \<longleftrightarrow> int (length (unacked_packets s)) < cwnd s)"
proof -
  note D = sender_invD [OF sender_reach_inv [OF assms]]
  note F = flight_invD [OF sender_reach_flight [OF assms]]
  have "filter
       (\<lambda>seq_num. case packet_size_of s seq_num of
                     None \<Rightarrow> False
                   | Some packet_size \<Rightarrow>
                       packet_size \<noteq> 0 \<and> seq_num + int packet_size > last_acked_seq s + 1)
       (map fst (unacked_packets s)) = map fst (unacked_packets s)"
  proof (rule filter_True, rule ballI)
    fix q assume "q \<in> set (map fst (unacked_packets s))"
    then have "q \<in> fst ` set (unacked_packets s)" by simp
    from F(2) [OF this] obtain d where d: "map_of (chunks s) q = Some d"
      "last_acked_seq s + 1 < q + int (length d)"
      by blast
    from contiguous_payload [OF D(5) d(1)] d
    show "case packet_size_of s q of
            None \<Rightarrow> False
          | Some packet_size \<Rightarrow>
              packet_size \<noteq> 0 \<and> q + int packet_size > last_acked_seq s + 1"
      by (simp add: packet_size_of_def)
  qed
  then have "in_flight_count s = int (length (unacked_packets s))"
    unfolding in_flight_count_def by simp
  then show ?thesis by (simp add: can_send_more_def)
qed

section \<open>A one-segment transfer, step by step\<close>

lemma read_one_byte: "read_file [7] = [(0, [7])]"
proof -
  have "[0..<(1 + 1023) div 1024] = [0]" by (simp add: upt_rec)
  then show ?thesis by (simp add: read_file_closed)
qed

lemma one_byte_created: "create_packet 0 [7] = Inr one_byte_packet"
  by (simp add: create_packet_def calculate_checksum_def pack_I_def pack_H_def
      one_byte_packet_def)

lemma one_byte_created': "create_packet 0 [7] = Inr [0, 0, 0, 0, 0, 7, 7]"
  using one_byte_created by (simp add: one_byte_packet_def)

lemmas scenario_defs = pumped_def acked_def two_duplicates_def stray_acked_def
  stray_pumped_def transfer_start_def client_init_def read_one_byte
  INITIAL_CWND_def INITIAL_SSTHRESH_def py_int_def one_byte_packet_def

lemma pump_first:
  "send_packet (transfer_start [7] 0) 1 0 [7] False = Inr pumped"
  by (simp add: send_packet_def one_byte_created' Let_def scenario_defs)

lemma ack_first: "handle_ack pumped 2 1 = Inr acked"
  by (simp add: handle_ack_def new_ack_def acked_packets_def packet_size_of_def pop_acked_def
      Let_def scenario_defs)

lemma ack_again:
  "handle_ack acked 3 1 = Inr (acked\<lparr>duplicate_ack_count := 1\<rparr>)"
  "handle_ack (acked\<lparr>duplicate_ack_count := 1\<rparr>) 3 1 = Inr two_duplicates"
  by (simp_all add: handle_ack_def FAST_RETRANSMIT_DUP_ACKS_def Let_def scenario_defs)

lemma ack_third:
  "handle_ack two_duplicates 4 1 = Inr (two_duplicates\<lparr>duplicate_ack_count := 3\<rparr>)"
  by (simp add: handle_ack_def FAST_RETRANSMIT_DUP_ACKS_def fast_retransmit_def Let_def
      scenario_defs)

lemma stray_first: "handle_ack (transfer_start [7] 0) 1 1 = Inr stray_acked"
  by (simp add: handle_ack_def new_ack_def acked_packets_def packet_size_of_def pop_acked_def
      Let_def scenario_defs)

lemma stray_second: "send_packet stray_acked 2 0 [7] False = Inr stray_pumped"
  by (simp add: send_packet_def one_byte_created' Let_def scenario_defs)

lemma reach_pumped: "sender_reach A pumped 1"
proof -
  have 1: "sender_reach A (transfer_start [7] 0) 0" by (rule sender_reach.start)
  have 2: "can_send_more (transfer_start [7] 0)"
    by (simp add: can_send_more_def in_flight_count_def scenario_defs)
  have 3: "0 < total_chunks (transfer_start [7] 0)" by (simp add: scenario_defs)
  have 4: "send_packet (transfer_start [7] 0) 1 (fst (chunks (transfer_start [7] 0) ! 0))
             (snd (chunks (transfer_start [7] 0) ! 0)) False = Inr pumped"
    using pump_first by (simp add: transfer_start_def read_one_byte)
  from sender_reach.pump [OF 1 2 3 4] show ?thesis by simp
qed

lemma reach_two_duplicates: "sender_reach any_ack two_duplicates 1"
proof -
  have a: "(0::int) \<le> 1" "(1::int) < 2 ^ 32" by simp_all
  have any: "any_ack s i 1" for s i by (simp add: any_ack_def)
  note 1 = sender_reach.ack [of any_ack, OF reach_pumped a any ack_first]
  note 2 = sender_reach.ack [of any_ack, OF 1 a any ack_again(1)]
  show ?thesis by (rule sender_reach.ack [of any_ack, OF 2 a any ack_again(2)])
qed

lemma reach_stray_pumped: "sender_reach any_ack stray_pumped 1"
proof -
  have a: "(0::int) \<le> 1" "(1::int) < 2 ^ 32" by simp_all
  have any: "any_ack s i 1" for s i by (simp add: any_ack_def)
  note 1 = sender_reach.ack [of any_ack, OF sender_reach.start a any stray_first]
  have 2: "can_send_more stray_acked"
    by (simp add: can_send_more_def in_flight_count_def scenario_defs)
  have 3: "0 < total_chunks stray_acked" by (simp add: scenario_defs)
  have 4: "send_packet stray_acked 2 (fst (chunks stray_acked ! 0))
             (snd (chunks stray_acked ! 0)) False = Inr stray_pumped"
    using stray_second by (simp add: stray_acked_def transfer_start_def read_one_byte)
  from sender_reach.pump [OF 1 2 3 4] show ?thesis by simp
qed












text \<open>
  The claim C1 as stated fails on the third duplicate of the final ACK: the file has
  one byte, the ACK number 1 is no sequence number of the table, and the call only
  raises the count to 3: nothing is sent, \<open>cwnd\<close> stays 2, \<open>ssthresh\<close> 64 and the phase
  slow start.
\<close>

theorem final_ack_repeated_counterexample:
  "sender_reach any_ack two_duplicates 1
   \<and> last_ack_received two_duplicates = 1 \<and> duplicate_ack_count two_duplicates = 2
   \<and> state two_duplicates = slow_start \<and> cwnd two_duplicates = 2
   \<and> ssthresh two_duplicates = 64
   \<and> handle_ack two_duplicates 4 1 = Inr (two_duplicates\<lparr>duplicate_ack_count := 3\<rparr>)"
  using reach_two_duplicates ack_third by (simp add: scenario_defs)

text \<open>
  The claim C5 as stated fails after an ACK for bytes not yet sent: ACK 1 arrives
  before the pump has sent the only chunk; the chunk sent afterwards is an entry of
  \<open>unacked_packets\<close> that \<open>can_send_more\<close> does not count, and with \<open>cwnd = 1\<close> the
  two admission rules disagree.
\<close>

theorem stray_ack_counterexample:
  "sender_reach any_ack stray_pumped 1
   \<and> in_flight_count stray_pumped = 0
   \<and> int (length (unacked_packets stray_pumped)) = 1
   \<and> cwnd stray_pumped = 1
   \<and> can_send_more stray_pumped
   \<and> \<not> int (length (unacked_packets stray_pumped)) < cwnd stray_pumped"
  using reach_stray_pumped
  by (simp add: can_send_more_def in_flight_count_def packet_size_of_def scenario_defs)


theorem duplicate_ack_fast_retransmit_witness:
  "handle_ack acked 3 1 = Inr (acked\<lparr>duplicate_ack_count := 1\<rparr>)
   \<and> handle_ack two_duplicates 4 1 = Inr (two_duplicates\<lparr>duplicate_ack_count := 3\<rparr>)
   \<and> (\<exists>packet s'. create_packet 0 [7] = Inr packet
          \<and> handle_ack awaiting_third 3 0 = Inr s'
          \<and> sent s' = sent awaiting_third @ [packet]
          \<and> ssthresh s' = 2 \<and> cwnd s' = 5 \<and> state s' = congestion_avoidance
          \<and> duplicate_ack_count s' = 0
          \<and> map_of (unacked_packets s') 0 = Some (packet, 3, 1)
          \<and> total_retransmissions s' = 1 \<and> fast_retransmissions s' = 1)"
proof -
  have 1: "handle_ack acked 3 1 = Inr (acked\<lparr>duplicate_ack_count := 1\<rparr>)"
    using duplicate_ack_fast_retransmit [of 1 acked 3] by (simp add: scenario_defs)
  have 2: "handle_ack two_duplicates 4 1 = Inr (two_duplicates\<lparr>duplicate_ack_count := 3\<rparr>)"
    using duplicate_ack_fast_retransmit [of 1 two_duplicates 4] by (simp add: scenario_defs)
  have h: "0 = last_ack_received awaiting_third"
    "duplicate_ack_count awaiting_third + 1 = 3 \<and> map_of (chunks awaiting_third) 0 = Some [7]
     \<and> (0::int) \<le> 0 \<and> (0::int) < 2 ^ 32 \<and> start_time awaiting_third = Some 0"
    by (simp_all add: awaiting_third_def scenario_defs)
  from duplicate_ack_fast_retransmit [OF h(1), of 3] h(2)
  have "\<exists>packet s'. create_packet 0 [7] = Inr packet
               \<and> handle_ack awaiting_third 3 0 = Inr s'
               \<and> sent s' = sent awaiting_third @ [packet]
               \<and> ssthresh s' = max (cwnd awaiting_third div 2) 2
               \<and> cwnd s' = ssthresh s' + 3
               \<and> state s' = congestion_avoidance
               \<and> duplicate_ack_count s' = 0
               \<and> map_of (unacked_packets s') 0 =
                   Some (packet, 3, case map_of (unacked_packets awaiting_third) 0 of
                                        None \<Rightarrow> 1 | Some (op, ot, rc) \<Rightarrow> rc + 1)
               \<and> total_retransmissions s' = total_retransmissions awaiting_third + 1
               \<and> fast_retransmissions s' = fast_retransmissions awaiting_third + 1
               \<and> timeout_retransmissions s' = timeout_retransmissions awaiting_third
               \<and> last_ack_received s' = last_ack_received awaiting_third"
    by blast
  then have 3: "\<exists>packet s'. create_packet 0 [7] = Inr packet
          \<and> handle_ack awaiting_third 3 0 = Inr s'
          \<and> sent s' = sent awaiting_third @ [packet]
          \<and> ssthresh s' = 2 \<and> cwnd s' = 5 \<and> state s' = congestion_avoidance
          \<and> duplicate_ack_count s' = 0
          \<and> map_of (unacked_packets s') 0 = Some (packet, 3, 1)
          \<and> total_retransmissions s' = 1 \<and> fast_retransmissions s' = 1"
    by (elim exE conjE, intro exI conjI) (simp_all add: awaiting_third_def scenario_defs)
  from 1 2 3 show ?thesis by blast
qed

theorem new_ack_window_growth_witness:
  "last_ack_received pumped < 1 \<and> start_time pumped = Some 0
   \<and> (\<exists>s' K. handle_ack pumped 2 1 = Inr s' \<and> unacked_packets s' = [] \<and> K = 1
          \<and> cwnd s' = 2 \<and> state s' = slow_start)
   \<and> (\<exists>s' K. handle_ack avoiding 2 1 = Inr s' \<and> unacked_packets s' = [] \<and> K = 1
          \<and> cwnd s' = 4 \<and> state s' = congestion_avoidance)"
proof -
  have h: "last_ack_received pumped < 1" "start_time pumped = Some 0"
    "\<forall>c\<in>set (chunks pumped). snd c \<noteq> []"
    "state pumped = congestion_avoidance \<longrightarrow> cwnd pumped \<noteq> 0"
    by (simp_all add: scenario_defs)
  have g: "last_ack_received avoiding < 1" "start_time avoiding = Some 0"
    "\<forall>c\<in>set (chunks avoiding). snd c \<noteq> []"
    "state avoiding = congestion_avoidance \<longrightarrow> cwnd avoiding \<noteq> 0"
    by (simp_all add: avoiding_def scenario_defs)
  from new_ack_window_growth [OF h, of 2] obtain s1 K1 where
    a: "handle_ack pumped 2 1 = Inr s1"
    "unacked_packets s1 =
         filter (\<lambda>e. \<not> (\<exists>d. map_of (chunks pumped) (fst e) = Some d
                             \<and> fst e + int (length d) \<le> 1))
           (unacked_packets pumped)"
    "K1 = int (length (unacked_packets pumped)) - int (length (unacked_packets s1))"
    "state pumped = slow_start \<longrightarrow>
           cwnd s1 = cwnd pumped + K1
           \<and> (state s1 = congestion_avoidance \<longleftrightarrow> ssthresh pumped \<le> cwnd s1)"
    by blast
  have u1: "unacked_packets s1 = []" unfolding a(2) by (simp add: scenario_defs)
  have k1: "K1 = 1" unfolding a(3) u1 by (simp add: scenario_defs)
  from a(4) have "cwnd s1 = 2 \<and> state s1 = slow_start"
    unfolding k1 by (cases "state s1") (auto simp: scenario_defs)
  with a(1) u1 k1
  have 1: "\<exists>s' K. handle_ack pumped 2 1 = Inr s' \<and> unacked_packets s' = [] \<and> K = 1
          \<and> cwnd s' = 2 \<and> state s' = slow_start"
    by blast
  from new_ack_window_growth [OF g, of 2] obtain s2 K2 where
    b: "handle_ack avoiding 2 1 = Inr s2"
    "unacked_packets s2 =
         filter (\<lambda>e. \<not> (\<exists>d. map_of (chunks avoiding) (fst e) = Some d
                             \<and> fst e + int (length d) \<le> 1))
           (unacked_packets avoiding)"
    "K2 = int (length (unacked_packets avoiding)) - int (length (unacked_packets s2))"
    "state avoiding = congestion_avoidance \<longrightarrow>
           cwnd s2 = max 1 (py_int (real_of_int (cwnd avoiding)
                                     + real_of_int K2 / real_of_int (cwnd avoiding)))
           \<and> (1 \<le> cwnd avoiding \<longrightarrow> cwnd s2 = cwnd avoiding + K2 div cwnd avoiding)
           \<and> state s2 = congestion_avoidance"
    by blast
  have u2: "unacked_packets s2 = []" unfolding b(2) by (simp add: avoiding_def scenario_defs)
  have k2: "K2 = 1" unfolding b(3) u2 by (simp add: avoiding_def scenario_defs)
  from b(4) have "cwnd s2 = 4 \<and> state s2 = congestion_avoidance"
    unfolding k2 by (simp add: avoiding_def scenario_defs)
  with b(1) u2 k2
  have 2: "\<exists>s' K. handle_ack avoiding 2 1 = Inr s' \<and> unacked_packets s' = [] \<and> K = 1
          \<and> cwnd s' = 4 \<and> state s' = congestion_avoidance"
    by blast
  from h(1,2) 1 2 show ?thesis by blast
qed

lemma pumped_segment: "segment_packet pumped 0 = Some one_byte_packet"
  by (simp add: segment_packet_def one_byte_created' scenario_defs)

theorem check_timeouts_retransmits_witness:
  "start_time pumped = Some 0 \<and> distinct (map fst (unacked_packets pumped))
   \<and> timed_out_packets pumped 2 = [0]
   \<and> (\<exists>s'. check_timeouts pumped 2 = Inr s'
          \<and> unacked_packets s' = [(0, one_byte_packet, 2, 1)]
          \<and> map Some (sent s') = [Some one_byte_packet, Some one_byte_packet]
          \<and> cwnd s' = 1 \<and> state s' = slow_start \<and> ssthresh s' = 2
          \<and> total_retransmissions s' = 1 \<and> timeout_retransmissions s' = 1
          \<and> fast_retransmissions s' = 0)
   \<and> timed_out_packets pumped (5 / 4) = []
   \<and> check_timeouts pumped (5 / 4) = Inr pumped"
proof -
  have h: "start_time pumped = Some 0" "distinct (map fst (unacked_packets pumped))"
    "\<forall>q\<in>fst ` set (unacked_packets pumped). segment_packet pumped q \<noteq> None"
    using pumped_segment by (simp_all add: scenario_defs)
  have t: "timed_out_packets pumped 2 = [0]" "timed_out_packets pumped (5 / 4) = []"
    by (simp_all add: timed_out_packets_def TIMEOUT_def scenario_defs)
  from check_timeouts_retransmits [OF h, of 2] obtain s' where
    a: "check_timeouts pumped 2 = Inr s'"
    "unacked_packets s' =
         map (\<lambda>e. if TIMEOUT < 2 - fst (snd (snd e)) then retransmitted pumped 2 e else e)
           (unacked_packets pumped)"
    "map Some (sent s') = map Some (sent pumped) @ map (segment_packet pumped) (timed_out_packets pumped 2)"
    "timed_out_packets pumped 2 \<noteq> [] \<longrightarrow>
           cwnd s' = 1 \<and> state s' = slow_start
           \<and> ssthresh s' = (if length (timed_out_packets pumped 2) = 1
                            then max (cwnd pumped div 2) 2 else 2)"
    "total_retransmissions s'
         = total_retransmissions pumped + int (length (timed_out_packets pumped 2))"
    "timeout_retransmissions s'
         = timeout_retransmissions pumped + int (length (timed_out_packets pumped 2))"
    "fast_retransmissions s' = fast_retransmissions pumped"
    by blast
  have 1: "unacked_packets s' = [(0, one_byte_packet, 2, 1)]"
    unfolding a(2) using pumped_segment
    by (simp add: retransmitted_def TIMEOUT_def pumped_def)
  have 2: "map Some (sent s') = [Some one_byte_packet, Some one_byte_packet]"
    unfolding a(3) t using pumped_segment by (simp add: pumped_def)
  have 3: "cwnd s' = 1 \<and> state s' = slow_start \<and> ssthresh s' = 2"
    using a(4) unfolding t by (simp add: scenario_defs)
  have 4: "total_retransmissions s' = 1 \<and> timeout_retransmissions s' = 1
          \<and> fast_retransmissions s' = 0"
    using a(5,6,7) unfolding t by (simp add: scenario_defs)
  from check_timeouts_retransmits [OF h, of "5 / 4"] t(2)
  have 5: "check_timeouts pumped (5 / 4) = Inr pumped" by auto
  have ex: "\<exists>s'. check_timeouts pumped 2 = Inr s'
          \<and> unacked_packets s' = [(0, one_byte_packet, 2, 1)]
          \<and> map Some (sent s') = [Some one_byte_packet, Some one_byte_packet]
          \<and> cwnd s' = 1 \<and> state s' = slow_start \<and> ssthresh s' = 2
          \<and> total_retransmissions s' = 1 \<and> timeout_retransmissions s' = 1
          \<and> fast_retransmissions s' = 0"
    using a(1) 1 2 3 4 by (intro exI [of _ s']) simp
  from h(1,2) t ex 5 show ?thesis by simp
qed

theorem cwnd_and_ssthresh_bounds_witness:
  "sender_reach any_ack two_duplicates 1
   \<and> 1 \<le> cwnd two_duplicates \<and> 2 \<le> ssthresh two_duplicates
   \<and> (\<exists>s'. handle_ack two_duplicates 4 1 = Inr s' \<and> 1 \<le> cwnd s' \<and> 2 \<le> ssthresh s')
   \<and> (\<exists>s'. check_timeouts two_duplicates 5 = Inr s' \<and> 1 \<le> cwnd s' \<and> 2 \<le> ssthresh s')"
proof -
  note t = cwnd_and_ssthresh_bounds [OF reach_two_duplicates]
  have "(0::int) \<le> 1 \<and> (1::int) < 2 ^ 32" by simp
  with t reach_two_duplicates show ?thesis by blast
qed

theorem in_flight_is_unacked_witness:
  "sender_reach ack_of_sent pumped 1
   \<and> in_flight_count pumped = 1 \<and> length (unacked_packets pumped) = 1
   \<and> \<not> can_send_more pumped"
proof -
  note t = in_flight_is_unacked [OF reach_pumped [of ack_of_sent]]
  have "length (unacked_packets pumped) = 1" "cwnd pumped = 1" by (simp_all add: scenario_defs)
  with t reach_pumped [of ack_of_sent] show ?thesis by simp
qed


end
